theory Spec2Isabelle
  imports Main "HOL-Library.Word"
begin

unbundle bit_operations_syntax

section \<open>Machine types\<close>

text \<open>
  The sources are C++ for a 64 bit target (\<^verbatim>\<open>static_assert(sizeof(void*) == sizeof(uint64_t))\<close>
  in memory_map.cpp), so \<^verbatim>\<open>size_t\<close> is a 64 bit word. Arithmetic on words wraps around,
  \<open>div\<close> on words is the unsigned division of C++.
\<close>

type_synonym byte = "8 word"
type_synonym uint16_t = "16 word"
type_synonym uint32_t = "32 word"
type_synonym uint64_t = "64 word"
type_synonym size_t = "64 word"

definition max_size_t :: size_t where
  "max_size_t = 0xFFFFFFFFFFFFFFFF"

definition max_uint32 :: uint32_t where
  "max_uint32 = 0xFFFFFFFF"

definition max_uint16 :: uint16_t where
  "max_uint16 = 0xFFFF"

section \<open>memory_map.cpp: the growing file\<close>

text \<open>
  The members of \<^verbatim>\<open>memory_map\<close> that \<^verbatim>\<open>reserve\<close> and \<^verbatim>\<open>truncate\<close> touch:
  \<open>file_size\<close> (the member \<^verbatim>\<open>file_size_\<close>, the length of the file and of the mapping), \<open>logical_size\<close>
  (the length the file is cut to by \<^verbatim>\<open>stop\<close>) and whether \<^verbatim>\<open>data_\<close> points to a mapping.
\<close>

record memory_map =
  file_size :: size_t
  logical_size :: size_t
  data_mapped :: bool

text \<open>
  The operating system calls can fail. Their outcome is not decided by the program, so it
  is a parameter: for each requested length, whether \<^verbatim>\<open>ftruncate\<close> succeeds and
  whether \<^verbatim>\<open>mremap\<close> (or \<^verbatim>\<open>mmap\<close>) returns a mapping; and whether
  \<^verbatim>\<open>munmap\<close> succeeds. \<open>has_mremap\<close> is the preprocessor symbol
  \<^verbatim>\<open>MREMAP_MAYMOVE\<close>, which selects the branch of \<^verbatim>\<open>truncate\<close> and
  \<^verbatim>\<open>remap\<close>.
\<close>

record platform =
  has_mremap :: bool
  munmap_ok :: bool
  ftruncate_ok :: "size_t \<Rightarrow> bool"
  mapping_ok :: "size_t \<Rightarrow> bool"

datatype error = runtime_error string

definition EXPANSION_NUMERATOR :: size_t where
  "EXPANSION_NUMERATOR = 150"

definition EXPANSION_DENOMINATOR :: size_t where
  "EXPANSION_DENOMINATOR = 100"

text \<open>\<^verbatim>\<open>validate\<close>: a failed mapping clears the length and the pointer.\<close>

definition validate :: "platform \<Rightarrow> memory_map \<Rightarrow> size_t \<Rightarrow> bool \<times> memory_map" where
  "validate os m sz =
     (if \<not> mapping_ok os sz
      then (False, m\<lparr>file_size := 0, data_mapped := False\<rparr>)
      else (True, m\<lparr>file_size := sz, data_mapped := True\<rparr>))"

definition unmap :: "platform \<Rightarrow> memory_map \<Rightarrow> bool \<times> memory_map" where
  "unmap os m = (munmap_ok os, m\<lparr>file_size := 0, data_mapped := False\<rparr>)"

text \<open>\<^verbatim>\<open>map\<close> (named \<open>map_file\<close> here, \<open>map\<close> is the list functional of HOL).\<close>

definition map_file :: "platform \<Rightarrow> memory_map \<Rightarrow> size_t \<Rightarrow> bool \<times> memory_map" where
  "map_file os m sz = (if sz = 0 then (False, m) else validate os m sz)"

definition remap :: "platform \<Rightarrow> memory_map \<Rightarrow> size_t \<Rightarrow> bool \<times> memory_map" where
  "remap os m sz =
     (if has_mremap os then validate os m sz
      else (case unmap os m of
              (False, m') \<Rightarrow> (False, m')
            | (True, m') \<Rightarrow> map_file os m' sz))"

text \<open>
  \<^verbatim>\<open>truncate\<close> (named \<open>truncate_file\<close> here): without \<^verbatim>\<open>MREMAP_MAYMOVE\<close> it unmaps, truncates the file and maps
  again; with it, it truncates the file and remaps.
\<close>

definition truncate_file :: "platform \<Rightarrow> memory_map \<Rightarrow> size_t \<Rightarrow> bool \<times> memory_map" where
  "truncate_file os m sz =
     (if \<not> has_mremap os then
        (case unmap os m of
           (False, m') \<Rightarrow> (False, m')
         | (True, m') \<Rightarrow>
             if \<not> ftruncate_ok os sz then (False, m') else map_file os m' sz)
      else if \<not> ftruncate_ok os sz then (False, m)
      else remap os m sz)"

text \<open>
  \<^verbatim>\<open>reserve(sz, expansion)\<close>. The product \<^verbatim>\<open>sz * expansion\<close> is a product of
  \<^verbatim>\<open>size_t\<close> values and wraps around at \<open>2 ^ 64\<close>. A failed \<^verbatim>\<open>truncate\<close> throws.
\<close>

definition reserve_expansion ::
  "platform \<Rightarrow> memory_map \<Rightarrow> size_t \<Rightarrow> size_t \<Rightarrow> error + memory_map" where
  "reserve_expansion os m sz expansion =
     (if sz > file_size m then
        (let new_size = sz * expansion div EXPANSION_DENOMINATOR in
         case truncate_file os m new_size of
           (False, m') \<Rightarrow> Inl (runtime_error ''Resize failure, disk space may be low.'')
         | (True, m') \<Rightarrow> Inr (m'\<lparr>logical_size := sz\<rparr>))
      else Inr (m\<lparr>logical_size := sz\<rparr>))"

definition resize :: "platform \<Rightarrow> memory_map \<Rightarrow> size_t \<Rightarrow> error + memory_map" where
  "resize os m sz = reserve_expansion os m sz EXPANSION_DENOMINATOR"

definition reserve :: "platform \<Rightarrow> memory_map \<Rightarrow> size_t \<Rightarrow> error + memory_map" where
  "reserve os m sz = reserve_expansion os m sz EXPANSION_NUMERATOR"

text \<open>A platform on which every call succeeds, for concrete runs.\<close>

definition linux_ok :: platform where
  "linux_ok = \<lparr>has_mremap = True, munmap_ok = True,
     ftruncate_ok = (\<lambda>_. True), mapping_ok = (\<lambda>_. True)\<rparr>"

section \<open>The serializer over the bytes of a slab\<close>

text \<open>
  A slab is the byte range of one record in the mapped file. The serializer of the code
  is a cursor over raw memory without bounds checks; here a cursor is a position in the
  slab, and an access that would leave the slab yields \<open>None\<close>: what the code does
  there is outside this model. Integers are little-endian.
\<close>

type_synonym data_chunk = "byte list"
type_synonym hash_digest = "byte list"

fun from_little_endian :: "byte list \<Rightarrow> 'a::len word" where
  "from_little_endian [] = 0"
| "from_little_endian (b # bs) = ucast b OR push_bit 8 (from_little_endian bs)"

fun to_little_endian :: "nat \<Rightarrow> 'a::len word \<Rightarrow> byte list" where
  "to_little_endian 0 w = []"
| "to_little_endian (Suc n) w = ucast w # to_little_endian n (drop_bit 8 w)"

definition read_bytes :: "data_chunk \<Rightarrow> nat \<Rightarrow> nat \<Rightarrow> (byte list \<times> nat) option" where
  "read_bytes d p n = (if p + n \<le> length d then Some (take n (drop p d), p + n) else None)"

definition read_byte :: "data_chunk \<Rightarrow> nat \<Rightarrow> (byte \<times> nat) option" where
  "read_byte d p = (if p < length d then Some (d ! p, p + 1) else None)"

definition read_2_bytes_little_endian :: "data_chunk \<Rightarrow> nat \<Rightarrow> (uint16_t \<times> nat) option" where
  "read_2_bytes_little_endian d p =
     (case read_bytes d p 2 of None \<Rightarrow> None | Some (bs, q) \<Rightarrow> Some (from_little_endian bs, q))"

definition read_4_bytes_little_endian :: "data_chunk \<Rightarrow> nat \<Rightarrow> (uint32_t \<times> nat) option" where
  "read_4_bytes_little_endian d p =
     (case read_bytes d p 4 of None \<Rightarrow> None | Some (bs, q) \<Rightarrow> Some (from_little_endian bs, q))"

definition read_8_bytes_little_endian :: "data_chunk \<Rightarrow> nat \<Rightarrow> (uint64_t \<times> nat) option" where
  "read_8_bytes_little_endian d p =
     (case read_bytes d p 8 of None \<Rightarrow> None | Some (bs, q) \<Rightarrow> Some (from_little_endian bs, q))"

text \<open>
  \<^verbatim>\<open>read_size_little_endian\<close>: the variable length integer. One byte below \<open>0xfd\<close> is
  the number itself; \<open>0xfd\<close>, \<open>0xfe\<close> and \<open>0xff\<close> announce 2, 4 and 8 bytes.
\<close>

definition read_size_little_endian :: "data_chunk \<Rightarrow> nat \<Rightarrow> (size_t \<times> nat) option" where
  "read_size_little_endian d p =
     (case read_byte d p of
        None \<Rightarrow> None
      | Some (b, q) \<Rightarrow>
          if b = 0xff then read_8_bytes_little_endian d q
          else if b = 0xfe then
            (case read_4_bytes_little_endian d q of
               None \<Rightarrow> None | Some (v, r) \<Rightarrow> Some (ucast v, r))
          else if b = 0xfd then
            (case read_2_bytes_little_endian d q of
               None \<Rightarrow> None | Some (v, r) \<Rightarrow> Some (ucast v, r))
          else Some (ucast b, q))"

definition write_bytes :: "data_chunk \<Rightarrow> nat \<Rightarrow> byte list \<Rightarrow> (data_chunk \<times> nat) option" where
  "write_bytes d p bs =
     (if p + length bs \<le> length d
      then Some (take p d @ bs @ drop (p + length bs) d, p + length bs)
      else None)"

definition write_byte :: "data_chunk \<Rightarrow> nat \<Rightarrow> byte \<Rightarrow> (data_chunk \<times> nat) option" where
  "write_byte d p b = write_bytes d p [b]"

definition write_2_bytes_little_endian ::
  "data_chunk \<Rightarrow> nat \<Rightarrow> uint16_t \<Rightarrow> (data_chunk \<times> nat) option" where
  "write_2_bytes_little_endian d p v = write_bytes d p (to_little_endian 2 v)"

definition write_4_bytes_little_endian ::
  "data_chunk \<Rightarrow> nat \<Rightarrow> uint32_t \<Rightarrow> (data_chunk \<times> nat) option" where
  "write_4_bytes_little_endian d p v = write_bytes d p (to_little_endian 4 v)"

section \<open>transaction_database.cpp: the record format\<close>

definition height_size :: nat where "height_size = 4"
definition position_size :: nat where "position_size = 2"
definition state_size :: nat where "state_size = 1"
definition median_time_past_size :: nat where "median_time_past_size = 4"
definition index_spend_size :: nat where "index_spend_size = 1"
definition value_size :: nat where "value_size = 8"

definition spend_size :: nat where
  "spend_size = index_spend_size + height_size + value_size"

definition metadata_size :: nat where
  "metadata_size = height_size + position_size + state_size + median_time_past_size"

definition no_time :: uint32_t where "no_time = 0"

text \<open>
  Modelled from the spec: the enumeration \<^verbatim>\<open>transaction_state\<close> is declared in
  state/transaction_state.hpp, which is not among the sources. The record format names
  its values (invalid, stored, pooled, indexed, confirmed) and stores one byte; the byte
  of each value is taken in that order. \<^verbatim>\<open>static_cast<transaction_state>\<close> accepts every
  byte, so a byte without a name is a state too.
\<close>

datatype transaction_state =
  invalid | stored | pooled | indexed | confirmed | unnamed_state byte

fun state_byte :: "transaction_state \<Rightarrow> byte" where
  "state_byte invalid = 0"
| "state_byte stored = 1"
| "state_byte pooled = 2"
| "state_byte indexed = 3"
| "state_byte confirmed = 4"
| "state_byte (unnamed_state b) = b"

definition to_transaction_state :: "byte \<Rightarrow> transaction_state" where
  "to_transaction_state b =
     (if b = 0 then invalid else if b = 1 then stored else if b = 2 then pooled
      else if b = 3 then indexed else if b = 4 then confirmed else unnamed_state b)"

text \<open>
  Modelled from the spec: the sentinels are constants of headers that are not among the
  sources (\<^verbatim>\<open>transaction_result::unconfirmed\<close>, \<^verbatim>\<open>output::validation::not_spent\<close>,
  \<^verbatim>\<open>rule_fork::unverified\<close>, \<^verbatim>\<open>point::null_index\<close>). The spec gives
  unconfirmed-position = 0xFFFF, not-spent-spender-height = 0xFFFFFFFF and
  forks-when-unverified = 0.
\<close>

definition unconfirmed :: uint16_t where "unconfirmed = 0xFFFF"
definition not_spent :: uint32_t where "not_spent = 0xFFFFFFFF"
definition rule_fork_unverified :: uint32_t where "rule_fork_unverified = 0"
definition null_index :: uint32_t where "null_index = 0xFFFFFFFF"
definition null_hash :: hash_digest where "null_hash = replicate 32 0"

text \<open>An output point: the hash of a transaction and the number of one of its outputs.\<close>

record point =
  hash :: hash_digest
  index :: uint32_t

definition is_null :: "point \<Rightarrow> bool" where
  "is_null pt \<longleftrightarrow> index pt = null_index \<and> hash pt = null_hash"

text \<open>
  An output as it is stored, and the metadata of an output point (\<^verbatim>\<open>point.metadata\<close>,
  named \<^verbatim>\<open>prevout\<close> in \<^verbatim>\<open>get_output\<close>) with the six members the code assigns.
  \<open>prevout_cache = None\<close> is an output that is not valid.
\<close>

record chain_output =
  index_spend :: byte
  spender_height :: uint32_t
  output_value :: uint64_t
  script :: data_chunk

record prevout =
  prevout_cache :: "chain_output option"
  prevout_coinbase :: bool
  prevout_confirmed :: bool
  prevout_height :: size_t
  prevout_median_time_past :: uint32_t
  prevout_spent :: bool

text \<open>
  The loop of \<^verbatim>\<open>spend\<close> that skips the outputs before the target: each output is
  \<open>spend_size\<close> bytes followed by a script with its length in front.
\<close>

fun skip_outputs :: "data_chunk \<Rightarrow> nat \<Rightarrow> nat \<Rightarrow> nat option" where
  "skip_outputs d p 0 = Some p"
| "skip_outputs d p (Suc n) =
     (case read_size_little_endian d (p + spend_size) of
        None \<Rightarrow> None
      | Some (len, q) \<Rightarrow> skip_outputs d (q + unat len) n)"

text \<open>The reader of \<^verbatim>\<open>spend\<close>: height, state and number of outputs.\<close>

definition spend_reader :: "data_chunk \<Rightarrow> (uint32_t \<times> transaction_state \<times> size_t) option" where
  "spend_reader d =
     (case read_4_bytes_little_endian d 0 of
        None \<Rightarrow> None
      | Some (height, p) \<Rightarrow>
          (case read_byte d (p + position_size) of
             None \<Rightarrow> None
           | Some (st, p') \<Rightarrow>
               (case read_size_little_endian d (p' + median_time_past_size) of
                  None \<Rightarrow> None
                | Some (outputs, p'') \<Rightarrow> Some (height, to_transaction_state st, outputs))))"

text \<open>
  The writer of \<^verbatim>\<open>spend\<close>: past the metadata and the output count, past the outputs
  before the target, past the index spend byte, then four bytes of the spender height
  (the \<^verbatim>\<open>size_t\<close> argument is narrowed to 32 bits by the call).
\<close>

definition spend_writer :: "data_chunk \<Rightarrow> uint32_t \<Rightarrow> size_t \<Rightarrow> data_chunk option" where
  "spend_writer d idx spender =
     (case read_size_little_endian d metadata_size of
        None \<Rightarrow> None
      | Some (n, p) \<Rightarrow>
          (case skip_outputs d p (unat idx) of
             None \<Rightarrow> None
           | Some q \<Rightarrow>
               map_option fst
                 (write_4_bytes_little_endian d (q + index_spend_size) (ucast spender))))"

text \<open>The writer of \<^verbatim>\<open>update\<close> (and of \<^verbatim>\<open>store\<close>): the eleven bytes of metadata.\<close>

definition update_writer ::
  "data_chunk \<Rightarrow> uint32_t \<Rightarrow> uint16_t \<Rightarrow> transaction_state \<Rightarrow> uint32_t \<Rightarrow> data_chunk option" where
  "update_writer d height position state mtp =
     (case write_4_bytes_little_endian d 0 height of
        None \<Rightarrow> None
      | Some (d1, p1) \<Rightarrow>
          (case write_2_bytes_little_endian d1 p1 position of
             None \<Rightarrow> None
           | Some (d2, p2) \<Rightarrow>
               (case write_byte d2 p2 (state_byte state) of
                  None \<Rightarrow> None
                | Some (d3, p3) \<Rightarrow> map_option fst (write_4_bytes_little_endian d3 p3 mtp))))"

section \<open>The result of a query\<close>

text \<open>
  Modelled from the spec: \<^verbatim>\<open>transaction_result\<close> (result/transaction_result.hpp) is not
  among the sources. A result wraps the element that was found; its accessors read the
  fields of the record format stated at the head of transaction_database.cpp, and
  iterating over it yields the previous output point of each input. An index of 0xFFFF
  on disk (two bytes) stands for the null index.
\<close>

definition result_height :: "data_chunk \<Rightarrow> uint32_t option" where
  "result_height d = map_option fst (read_4_bytes_little_endian d 0)"

definition result_position :: "data_chunk \<Rightarrow> uint16_t option" where
  "result_position d = map_option fst (read_2_bytes_little_endian d height_size)"

definition result_state :: "data_chunk \<Rightarrow> transaction_state option" where
  "result_state d =
     map_option (to_transaction_state \<circ> fst) (read_byte d (height_size + position_size))"

definition result_median_time_past :: "data_chunk \<Rightarrow> uint32_t option" where
  "result_median_time_past d =
     map_option fst
       (read_4_bytes_little_endian d (height_size + position_size + state_size))"

definition read_output :: "data_chunk \<Rightarrow> nat \<Rightarrow> (chain_output \<times> nat) option" where
  "read_output d p =
     (case read_byte d p of None \<Rightarrow> None | Some (flag, p1) \<Rightarrow>
      (case read_4_bytes_little_endian d p1 of None \<Rightarrow> None | Some (sh, p2) \<Rightarrow>
       (case read_8_bytes_little_endian d p2 of None \<Rightarrow> None | Some (v, p3) \<Rightarrow>
        (case read_size_little_endian d p3 of None \<Rightarrow> None | Some (len, p4) \<Rightarrow>
         (case read_bytes d p4 (unat len) of None \<Rightarrow> None | Some (sc, p5) \<Rightarrow>
            Some (\<lparr>index_spend = flag, spender_height = sh, output_value = v,
                   script = sc\<rparr>, p5))))))"

text \<open>\<^verbatim>\<open>result.output(index)\<close>: \<open>Some None\<close> is an output that is not valid.\<close>

definition result_output :: "data_chunk \<Rightarrow> uint32_t \<Rightarrow> chain_output option option" where
  "result_output d idx =
     (case read_size_little_endian d metadata_size of
        None \<Rightarrow> None
      | Some (outputs, p) \<Rightarrow>
          if ucast idx \<ge> outputs then Some None
          else (case skip_outputs d p (unat idx) of
                  None \<Rightarrow> None
                | Some q \<Rightarrow> map_option (Some \<circ> fst) (read_output d q)))"

fun read_inpoints :: "data_chunk \<Rightarrow> nat \<Rightarrow> nat \<Rightarrow> point list option" where
  "read_inpoints d p 0 = Some []"
| "read_inpoints d p (Suc n) =
     (case read_bytes d p 32 of None \<Rightarrow> None | Some (h, p1) \<Rightarrow>
      (case read_2_bytes_little_endian d p1 of None \<Rightarrow> None | Some (i, p2) \<Rightarrow>
       (case read_size_little_endian d p2 of None \<Rightarrow> None | Some (len, p3) \<Rightarrow>
        (case read_inpoints d (p3 + unat len + 4) n of None \<Rightarrow> None | Some pts \<Rightarrow>
           Some (\<lparr>hash = h, index = (if i = max_uint16 then null_index else ucast i)\<rparr>
                 # pts)))))"

definition result_inpoints :: "data_chunk \<Rightarrow> point list option" where
  "result_inpoints d =
     (case read_size_little_endian d metadata_size of
        None \<Rightarrow> None
      | Some (outputs, p) \<Rightarrow>
          (case skip_outputs d p (unat outputs) of
             None \<Rightarrow> None
           | Some q \<Rightarrow>
               (case read_size_little_endian d q of
                  None \<Rightarrow> None
                | Some (inputs, r) \<Rightarrow> read_inpoints d r (unat inputs))))"

text \<open>
  Modelled from the spec: \<^verbatim>\<open>output::validation::spent\<close> is not among the sources;
  the spec has \<open>spent := confirmed \<and> spender_height \<le> fork_height\<close>.
\<close>

definition output_spent :: "chain_output \<Rightarrow> size_t \<Rightarrow> bool" where
  "output_spent out fork_height \<longleftrightarrow> ucast (spender_height out) \<le> fork_height"

section \<open>The database\<close>

text \<open>
  Modelled from the spec: the hash table (primitives/slab_hash_table) and the output
  cache (unspent_outputs) are not among the sources. The table resolves a hash to the
  offset (link) of a slab, and an offset to its slab; an element is a link together with
  the bytes found there, \<^verbatim>\<open>element.read\<close> hands the bytes to a reader and
  \<^verbatim>\<open>element.write\<close> stores what a writer made of them. The cache either resolves a
  point at a fork height, giving the metadata it populates, or it does not;
  \<^verbatim>\<open>remove\<close> makes it not resolve the point any more.
\<close>

type_synonym link = nat

record transaction_database =
  hash_table :: "hash_digest \<Rightarrow> link option"
  slabs :: "link \<Rightarrow> data_chunk option"
  cache :: "hash_digest \<times> uint32_t \<Rightarrow> size_t \<Rightarrow> prevout option"

definition find_link :: "transaction_database \<Rightarrow> link \<Rightarrow> (link \<times> data_chunk) option" where
  "find_link s l = map_option (Pair l) (slabs s l)"

definition find_hash ::
  "transaction_database \<Rightarrow> hash_digest \<Rightarrow> (link \<times> data_chunk) option" where
  "find_hash s h = (case hash_table s h of None \<Rightarrow> None | Some l \<Rightarrow> find_link s l)"

definition element_write ::
  "transaction_database \<Rightarrow> link \<Rightarrow> data_chunk \<Rightarrow> transaction_database" where
  "element_write s l d = s\<lparr>slabs := (slabs s)(l \<mapsto> d)\<rparr>"

definition cache_populate :: "transaction_database \<Rightarrow> point \<Rightarrow> size_t \<Rightarrow> prevout option" where
  "cache_populate s pt fork_height = cache s (hash pt, index pt) fork_height"

definition cache_remove :: "transaction_database \<Rightarrow> point \<Rightarrow> transaction_database" where
  "cache_remove s pt = s\<lparr>cache := (cache s)((hash pt, index pt) := (\<lambda>_. None))\<rparr>"

text \<open>\<^verbatim>\<open>get(offset)\<close> and \<^verbatim>\<open>get(hash)\<close>: the bytes of the record, \<open>None\<close> when the result is not valid.\<close>

definition get_link :: "transaction_database \<Rightarrow> link \<Rightarrow> data_chunk option" where
  "get_link s l = map_option snd (find_link s l)"

definition get_hash :: "transaction_database \<Rightarrow> hash_digest \<Rightarrow> data_chunk option" where
  "get_hash s h = map_option snd (find_hash s h)"

text \<open>
  \<^verbatim>\<open>get_output\<close>. The metadata of the point is an argument and a result. The outer
  \<open>None\<close> is a read outside the slab.
\<close>

definition get_output ::
  "transaction_database \<Rightarrow> point \<Rightarrow> prevout \<Rightarrow> size_t \<Rightarrow> (bool \<times> prevout) option" where
  "get_output s pt metadata fork_height =
     (let prevout = metadata\<lparr>prevout_height := 0, prevout_median_time_past := 0,
                             prevout_spent := False\<rparr> in
      if is_null pt then Some (False, prevout)
      else case cache_populate s pt fork_height of
        Some populated \<Rightarrow> Some (True, populated)
      | None \<Rightarrow>
        (case get_hash s (hash pt) of
           None \<Rightarrow> Some (False, prevout)
         | Some d \<Rightarrow>
           (case result_height d of
              None \<Rightarrow> None
            | Some height \<Rightarrow>
              if height = 0 then Some (False, prevout)
              else
              (case result_state d of
                 None \<Rightarrow> None
               | Some state \<Rightarrow>
                 (let relevant = (ucast height \<le> fork_height);
                      for_pool = (fork_height = max_size_t);
                      is_confirmed = ((state = indexed \<and> \<not> for_pool) \<or>
                                      (state = confirmed \<and> relevant)) in
                  if \<not> for_pool \<and> \<not> is_confirmed then Some (False, prevout)
                  else
                  (case result_output d (index pt) of
                     None \<Rightarrow> None
                   | Some None \<Rightarrow> Some (False, prevout\<lparr>prevout_cache := None\<rparr>)
                   | Some (Some out) \<Rightarrow>
                     (case result_position d of
                        None \<Rightarrow> None
                      | Some position \<Rightarrow>
                        (case result_median_time_past d of
                           None \<Rightarrow> None
                         | Some mtp \<Rightarrow>
                           Some (True,
                             prevout\<lparr>prevout_cache := Some out,
                               prevout_coinbase := (position = 0),
                               prevout_confirmed := is_confirmed,
                               prevout_height := ucast height,
                               prevout_median_time_past := mtp,
                               prevout_spent :=
                                 (is_confirmed \<and> output_spent out fork_height)\<rparr>)))))))))"

text \<open>\<^verbatim>\<open>spend\<close>. The state comes back also when the answer is false: the cache may have changed.\<close>

definition spend ::
  "transaction_database \<Rightarrow> point \<Rightarrow> size_t \<Rightarrow> (bool \<times> transaction_database) option" where
  "spend s pt spender =
     (if is_null pt then Some (True, s)
      else
        (let s1 = (if spender \<noteq> ucast not_spent then cache_remove s pt else s) in
         case find_hash s1 (hash pt) of
           None \<Rightarrow> Some (False, s1)
         | Some (l, d) \<Rightarrow>
           (case spend_reader d of
              None \<Rightarrow> None
            | Some (height, state, outputs) \<Rightarrow>
                if state \<noteq> confirmed \<or> ucast height > spender then Some (False, s1)
                else if ucast (index pt) \<ge> outputs then Some (False, s1)
                else (case spend_writer d (index pt) spender of
                        None \<Rightarrow> None
                      | Some d' \<Rightarrow> Some (True, element_write s1 l d')))))"

definition unspend ::
  "transaction_database \<Rightarrow> point \<Rightarrow> (bool \<times> transaction_database) option" where
  "unspend s pt = spend s pt (ucast not_spent)"

text \<open>
  \<^verbatim>\<open>update\<close>. \<^verbatim>\<open>BITCOIN_ASSERT\<close> stops the program when its condition fails: the
  call does not return, which is \<open>None\<close>.
\<close>

definition update ::
  "transaction_database \<Rightarrow> link \<Rightarrow> size_t \<Rightarrow> uint32_t \<Rightarrow> size_t \<Rightarrow> transaction_state
     \<Rightarrow> (bool \<times> transaction_database) option" where
  "update s l height mtp position state =
     (if \<not> height \<le> ucast max_uint32 then None
      else if \<not> position \<le> ucast max_uint16 then None
      else case find_link s l of
        None \<Rightarrow> Some (False, s)
      | Some (l', d) \<Rightarrow>
          (case update_writer d (ucast height) (ucast position) state mtp of
             None \<Rightarrow> None
           | Some d' \<Rightarrow> Some (True, element_write s l' d')))"

text \<open>
  The loops of \<^verbatim>\<open>confirm\<close> and \<^verbatim>\<open>unconfirm\<close> over the inputs stop at the first
  point that cannot be spent; what was written before stays written.
\<close>

fun spend_inputs ::
  "transaction_database \<Rightarrow> point list \<Rightarrow> size_t \<Rightarrow> (bool \<times> transaction_database) option" where
  "spend_inputs s [] spender = Some (True, s)"
| "spend_inputs s (pt # pts) spender =
     (case spend s pt spender of
        None \<Rightarrow> None
      | Some (ok, s') \<Rightarrow> if \<not> ok then Some (False, s') else spend_inputs s' pts spender)"

definition unconfirm ::
  "transaction_database \<Rightarrow> link \<Rightarrow> (bool \<times> transaction_database) option" where
  "unconfirm s l =
     (case get_link s l of
        None \<Rightarrow> Some (False, s)
      | Some d \<Rightarrow>
          (case result_inpoints d of
             None \<Rightarrow> None
           | Some inpoints \<Rightarrow>
               (case spend_inputs s inpoints (ucast not_spent) of
                  None \<Rightarrow> None
                | Some (ok, s') \<Rightarrow>
                    if \<not> ok then Some (False, s')
                    else update s' l (ucast rule_fork_unverified) no_time
                           (ucast unconfirmed) pooled)))"

definition confirm ::
  "transaction_database \<Rightarrow> link \<Rightarrow> size_t \<Rightarrow> uint32_t \<Rightarrow> size_t
     \<Rightarrow> (bool \<times> transaction_database) option" where
  "confirm s l height mtp position =
     (if \<not> height \<le> ucast max_uint32 then None
      else if \<not> position \<le> ucast max_uint16 then None
      else if \<not> position \<noteq> ucast unconfirmed then None
      else case get_link s l of
        None \<Rightarrow> Some (False, s)
      | Some d \<Rightarrow>
          (case result_inpoints d of
             None \<Rightarrow> None
           | Some inpoints \<Rightarrow>
               (case spend_inputs s inpoints height of
                  None \<Rightarrow> None
                | Some (ok, s') \<Rightarrow>
                    if \<not> ok then Some (False, s')
                    else update s' l height mtp position confirmed)))"

section \<open>Notions for stating the properties\<close>

text \<open>
  Two slabs of the same length that agree at every position outside a set \<open>X\<close>.
\<close>

definition eq_outside :: "nat set \<Rightarrow> data_chunk \<Rightarrow> data_chunk \<Rightarrow> bool" where
  "eq_outside X d d' \<longleftrightarrow>
     length d' = length d \<and> (\<forall>i < length d. i \<notin> X \<longrightarrow> d' ! i = d ! i)"

text \<open>The extent of a variable length integer is decided by its first byte.\<close>

definition size_extent :: "data_chunk \<Rightarrow> nat \<Rightarrow> nat" where
  "size_extent d p =
     (if p < length d then
        (if d ! p = 0xff then 9 else if d ! p = 0xfe then 5 else if d ! p = 0xfd then 3 else 1)
      else 1)"

text \<open>
  The position of the spender height of output number \<open>idx\<close>, following the record
  format: past the metadata, the output count, the outputs before it and its index spend
  byte. \<open>output_spender_height\<close> reads the four bytes there.
\<close>

definition slot_position :: "data_chunk \<Rightarrow> uint32_t \<Rightarrow> nat option" where
  "slot_position d idx =
     (case read_size_little_endian d metadata_size of
        None \<Rightarrow> None
      | Some (n, p) \<Rightarrow>
          (case skip_outputs d p (unat idx) of
             None \<Rightarrow> None
           | Some q \<Rightarrow> Some (q + index_spend_size)))"

definition output_spender_height :: "data_chunk \<Rightarrow> uint32_t \<Rightarrow> uint32_t option" where
  "output_spender_height d idx =
     (case slot_position d idx of
        None \<Rightarrow> None
      | Some q \<Rightarrow> map_option fst (read_4_bytes_little_endian d q))"

text \<open>
  The bytes of the spender heights of \<open>n\<close> outputs that start at position \<open>p\<close>, following
  the walk of \<open>skip_outputs\<close>; and those of all outputs of a record.
\<close>

fun slot_bytes :: "data_chunk \<Rightarrow> nat \<Rightarrow> nat \<Rightarrow> nat set" where
  "slot_bytes d p 0 = {}"
| "slot_bytes d p (Suc n) =
     {p + index_spend_size ..< p + index_spend_size + height_size} \<union>
     (case read_size_little_endian d (p + spend_size) of
        None \<Rightarrow> {}
      | Some (len, q) \<Rightarrow> slot_bytes d (q + unat len) n)"

definition all_slots :: "data_chunk \<Rightarrow> nat set" where
  "all_slots d =
     (case read_size_little_endian d metadata_size of
        None \<Rightarrow> {}
      | Some (n, p) \<Rightarrow> slot_bytes d p (unat n))"

definition slot_eq :: "data_chunk \<Rightarrow> data_chunk \<Rightarrow> bool" where
  "slot_eq d d' \<longleftrightarrow> eq_outside (all_slots d) d d'"

text \<open>
  Two databases with the same hash table whose slabs are at the same offsets and agree
  outside the spender heights.
\<close>

definition slot_equiv :: "transaction_database \<Rightarrow> transaction_database \<Rightarrow> bool" where
  "slot_equiv s t \<longleftrightarrow>
     hash_table t = hash_table s \<and> (\<forall>l. rel_option slot_eq (slabs s l) (slabs t l))"

text \<open>
  Every point of the list that is not null is found, and the spender height of the
  output it names is \<open>v\<close>.
\<close>

definition all_spent :: "transaction_database \<Rightarrow> point list \<Rightarrow> uint32_t \<Rightarrow> bool" where
  "all_spent s pts v \<longleftrightarrow>
     (\<forall>pt \<in> set pts. \<not> is_null pt \<longrightarrow>
        (\<exists>l e. find_hash s (hash pt) = Some (l, e) \<and>
               output_spender_height e (index pt) = Some v))"

text \<open>
  The four bytes of the spender height of one output; and, for a list of points, the
  bytes of the slab at offset \<open>l\<close> that belong to the spender height of an output named
  by a point of the list.
\<close>

definition spender_slot :: "data_chunk \<Rightarrow> uint32_t \<Rightarrow> nat set" where
  "spender_slot d idx = (case slot_position d idx of None \<Rightarrow> {} | Some q \<Rightarrow> {q ..< q + 4})"

definition touched :: "transaction_database \<Rightarrow> point list \<Rightarrow> link \<Rightarrow> nat set" where
  "touched s pts l =
     (\<Union>pt \<in> {pt \<in> set pts. \<not> is_null pt \<and> hash_table s (hash pt) = Some l}.
        case slabs s l of None \<Rightarrow> {} | Some e \<Rightarrow> spender_slot e (index pt))"

text \<open>
  What \<open>spend\<close> checks before it writes: the transaction is found, confirmed at a height
  not above the spender height, the index is below the output count, and the four bytes
  to write are inside the slab.
\<close>

definition spendable :: "transaction_database \<Rightarrow> point \<Rightarrow> size_t \<Rightarrow> bool" where
  "spendable s pt sp \<longleftrightarrow>
     (\<exists>l e height outputs q.
        find_hash s (hash pt) = Some (l, e) \<and>
        spend_reader e = Some (height, confirmed, outputs) \<and>
        \<not> ucast height > sp \<and> ucast (index pt) < outputs \<and>
        slot_position e (index pt) = Some q \<and> q + 4 \<le> length e)"

text \<open>The cache after the points of a list were removed from it by \<open>spend\<close>.\<close>

definition evicted ::
  "size_t \<Rightarrow> point list \<Rightarrow> (hash_digest \<times> uint32_t \<Rightarrow> size_t \<Rightarrow> prevout option)
     \<Rightarrow> (hash_digest \<times> uint32_t \<Rightarrow> size_t \<Rightarrow> prevout option)" where
  "evicted sp pts c =
     (\<lambda>k. if sp \<noteq> ucast not_spent \<and>
              k \<in> (\<lambda>pt. (hash pt, index pt)) ` {pt \<in> set pts. \<not> is_null pt}
           then (\<lambda>_. None) else c k)"

section \<open>A small database for concrete runs\<close>

text \<open>
  Two records. The one at offset 0 (hash \<open>hash0\<close>) is confirmed at height 5, has two
  outputs, both not spent, and one input with the null point. The one at offset 100
  (hash \<open>hash1\<close>) is pooled, has one output, and its one input spends output 1 of the
  first. The cache is empty.
\<close>

definition hash0 :: hash_digest where
  "hash0 = replicate 32 1"

definition hash1 :: hash_digest where
  "hash1 = replicate 32 2"

definition slab0 :: data_chunk where
  "slab0 = [5, 0, 0, 0] @ [0, 0] @ [4] @ [16, 0, 0, 0] @
           [2] @
           [0] @ [255, 255, 255, 255] @ [1, 0, 0, 0, 0, 0, 0, 0] @ [1, 81] @
           [0] @ [255, 255, 255, 255] @ [2, 0, 0, 0, 0, 0, 0, 0] @ [0] @
           [1] @
           null_hash @ [255, 255] @ [0] @ [255, 255, 255, 255] @
           [0] @ [1]"

definition slab1 :: data_chunk where
  "slab1 = [0, 0, 0, 0] @ [255, 255] @ [2] @ [0, 0, 0, 0] @
           [1] @
           [0] @ [255, 255, 255, 255] @ [3, 0, 0, 0, 0, 0, 0, 0] @ [0] @
           [1] @
           hash0 @ [1, 0] @ [0] @ [255, 255, 255, 255] @
           [0] @ [1]"

definition db0 :: transaction_database where
  "db0 = \<lparr>hash_table = (\<lambda>h. if h = hash0 then Some 0 else if h = hash1 then Some 100 else None),
          slabs = (\<lambda>l. if l = 0 then Some slab0 else if l = 100 then Some slab1 else None),
          cache = (\<lambda>k fh. None)\<rparr>"

definition prevout0 :: prevout where
  "prevout0 = \<lparr>prevout_cache = None, prevout_coinbase = False, prevout_confirmed = False,
     prevout_height = 0, prevout_median_time_past = 0, prevout_spent = False\<rparr>"

definition null_point :: point where
  "null_point = \<lparr>hash = null_hash, index = null_index\<rparr>"

definition point00 :: point where "point00 = \<lparr>hash = hash0, index = 0\<rparr>"
definition point01 :: point where "point01 = \<lparr>hash = hash0, index = 1\<rparr>"
definition point02 :: point where "point02 = \<lparr>hash = hash0, index = 2\<rparr>"
definition point10 :: point where "point10 = \<lparr>hash = hash1, index = 0\<rparr>"

text \<open>The two records after \<open>confirm\<close> of the second at height 7, position 3.\<close>

definition slab0_spent :: data_chunk where
  "slab0_spent = [5, 0, 0, 0] @ [0, 0] @ [4] @ [16, 0, 0, 0] @
           [2] @
           [0] @ [255, 255, 255, 255] @ [1, 0, 0, 0, 0, 0, 0, 0] @ [1, 81] @
           [0] @ [7, 0, 0, 0] @ [2, 0, 0, 0, 0, 0, 0, 0] @ [0] @
           [1] @
           null_hash @ [255, 255] @ [0] @ [255, 255, 255, 255] @
           [0] @ [1]"

definition slab1_confirmed :: data_chunk where
  "slab1_confirmed = [7, 0, 0, 0] @ [3, 0] @ [4] @ [0, 94, 208, 178] @
           [1] @
           [0] @ [255, 255, 255, 255] @ [3, 0, 0, 0, 0, 0, 0, 0] @ [0] @
           [1] @
           hash0 @ [1, 0] @ [0] @ [255, 255, 255, 255] @
           [0] @ [1]"

definition db1 :: transaction_database where
  "db1 = element_write (element_write (cache_remove db0 point01) 0 slab0_spent)
           100 slab1_confirmed"

definition db2 :: transaction_database where
  "db2 = element_write (element_write db1 0 slab0) 100 slab1"

text \<open>
  A database with one record whose input names the record itself: the record at offset
  0 has the hash \<open>hash0\<close>, is confirmed at height 5, has one output, and its one input is
  the point \<open>(hash0, 0)\<close>.
\<close>

definition slab_self :: data_chunk where
  "slab_self = [5, 0, 0, 0] @ [0, 0] @ [4] @ [16, 0, 0, 0] @
           [1] @
           [0] @ [255, 255, 255, 255] @ [1, 0, 0, 0, 0, 0, 0, 0] @ [0] @
           [1] @
           hash0 @ [0, 0] @ [0] @ [255, 255, 255, 255] @
           [0] @ [1]"

definition self_db :: transaction_database where
  "self_db = \<lparr>hash_table = (\<lambda>h. if h = hash0 then Some 0 else None),
              slabs = (\<lambda>l. if l = 0 then Some slab_self else None),
              cache = (\<lambda>k fh. None)\<rparr>"

text \<open>The record after the first \<open>confirm\<close> (height 7, position 1) and after \<open>unconfirm\<close>.\<close>

definition slab_self_spent :: data_chunk where
  "slab_self_spent = [5, 0, 0, 0] @ [0, 0] @ [4] @ [16, 0, 0, 0] @
           [1] @
           [0] @ [7, 0, 0, 0] @ [1, 0, 0, 0, 0, 0, 0, 0] @ [0] @
           [1] @
           hash0 @ [0, 0] @ [0] @ [255, 255, 255, 255] @
           [0] @ [1]"

definition slab_self_confirmed :: data_chunk where
  "slab_self_confirmed = [7, 0, 0, 0] @ [1, 0] @ [4] @ [9, 0, 0, 0] @
           [1] @
           [0] @ [7, 0, 0, 0] @ [1, 0, 0, 0, 0, 0, 0, 0] @ [0] @
           [1] @
           hash0 @ [0, 0] @ [0] @ [255, 255, 255, 255] @
           [0] @ [1]"

definition slab_self_unspent :: data_chunk where
  "slab_self_unspent = [7, 0, 0, 0] @ [1, 0] @ [4] @ [9, 0, 0, 0] @
           [1] @
           [0] @ [255, 255, 255, 255] @ [1, 0, 0, 0, 0, 0, 0, 0] @ [0] @
           [1] @
           hash0 @ [0, 0] @ [0] @ [255, 255, 255, 255] @
           [0] @ [1]"

definition slab_self_pooled :: data_chunk where
  "slab_self_pooled = [0, 0, 0, 0] @ [255, 255] @ [2] @ [0, 0, 0, 0] @
           [1] @
           [0] @ [255, 255, 255, 255] @ [1, 0, 0, 0, 0, 0, 0, 0] @ [0] @
           [1] @
           hash0 @ [0, 0] @ [0] @ [255, 255, 255, 255] @
           [0] @ [1]"

definition self_db1 :: transaction_database where
  "self_db1 = element_write (element_write (cache_remove self_db point00) 0 slab_self_spent)
                0 slab_self_confirmed"

definition self_db2 :: transaction_database where
  "self_db2 = element_write (element_write self_db1 0 slab_self_unspent) 0 slab_self_pooled"

section \<open>Properties of memory_map\<close>

lemma truncate_file_size:
  "truncate_file os m sz = (True, m') \<Longrightarrow> file_size m' = sz"
  by (auto simp: truncate_file_def remap_def map_file_def validate_def unmap_def
      split: if_splits prod.splits bool.splits)

lemma truncate_logical_size:
  "truncate_file os m sz = (b, m') \<Longrightarrow> logical_size m' = logical_size m"
  by (auto simp: truncate_file_def remap_def map_file_def validate_def unmap_def
      split: if_splits prod.splits bool.splits)

lemma reserve_expansion_file_size:
  "reserve_expansion os m sz e = Inr m' \<Longrightarrow>
   file_size m' = (if sz > file_size m then sz * e div 100 else file_size m)"
  by (auto simp: reserve_expansion_def EXPANSION_DENOMINATOR_def Let_def
      dest: truncate_file_size split: if_splits prod.splits bool.splits)

lemma reserve_expansion_logical_size:
  "reserve_expansion os m sz e = Inr m' \<Longrightarrow> logical_size m' = sz"
  by (auto simp: reserve_expansion_def Let_def split: if_splits prod.splits bool.splits)

lemma unat_mult_div_exact:
  fixes sz e :: size_t
  assumes "unat sz * unat e < 2 ^ 64"
  shows "unat (sz * e div 100) = unat sz * unat e div 100"
proof -
  have "unat (sz * e) = unat sz * unat e"
    using assms by (simp add: unat_mult_lem [THEN iffD1])
  then show ?thesis
    by (simp add: unat_div)
qed

section \<open>Little-endian integers\<close>

lemma length_to_little_endian [simp]: "length (to_little_endian n w) = n"
  by (induction n arbitrary: w) auto

lemma to_little_endian_nth:
  "i < n \<Longrightarrow> to_little_endian n w ! i = ucast (drop_bit (8 * i) w)"
proof (induction n arbitrary: i w)
  case 0
  then show ?case by simp
next
  case (Suc n)
  show ?case
  proof (cases i)
    case 0
    then show ?thesis by simp
  next
    case (Suc j)
    with Suc.prems have "j < n" by simp
    then show ?thesis
      using Suc.IH [of j "drop_bit 8 w"] Suc by (simp add: add.commute)
  qed
qed

lemma bit_from_little_endian:
  "bit (from_little_endian bs :: 'a::len word) k \<longleftrightarrow>
     k < LENGTH('a) \<and> k < 8 * length bs \<and> bit (bs ! (k div 8)) (k mod 8)"
proof (induction bs arbitrary: k)
  case Nil
  then show ?case by simp
next
  case (Cons b bs)
  show ?case
  proof (cases "k < 8")
    case True
    then show ?thesis
      by (auto simp add: bit_simps dest: bit_imp_le_length)
  next
    case False
    then have k: "8 \<le> k" by simp
    then have d: "k div 8 = Suc ((k - 8) div 8)" "(k - 8) mod 8 = k mod 8"
      using k by (simp_all add: le_div_geq le_mod_geq)
    have nb: "\<not> bit b k"
      using k by (auto dest: bit_imp_le_length)
    show ?thesis
      using k nb by (auto simp add: bit_simps Cons.IH d)
  qed
qed

lemma from_to_little_endian:
  "LENGTH('a::len) \<le> 8 * n \<Longrightarrow> from_little_endian (to_little_endian n w) = (w :: 'a word)"
proof (rule bit_word_eqI)
  fix k assume n: "LENGTH('a) \<le> 8 * n" and k: "k < LENGTH('a)"
  then have "k div 8 < n" by (simp add: less_mult_imp_div_less mult.commute) 
  moreover have "k mod 8 < 8" by simp
  ultimately show "bit (from_little_endian (to_little_endian n w) :: 'a word) k \<longleftrightarrow> bit w k"
    using n k by (auto simp add: bit_from_little_endian to_little_endian_nth bit_simps)
qed

lemma to_from_little_endian:
  assumes "8 * length bs \<le> LENGTH('a::len)"
  shows "to_little_endian (length bs) (from_little_endian bs :: 'a word) = bs"
proof (rule nth_equalityI)
  show "length (to_little_endian (length bs) (from_little_endian bs :: 'a word)) = length bs"
    by simp
next
  fix i assume "i < length (to_little_endian (length bs) (from_little_endian bs :: 'a word))"
  then have i: "i < length bs" by simp
  show "to_little_endian (length bs) (from_little_endian bs :: 'a word) ! i = bs ! i"
  proof (rule bit_word_eqI)
    fix k assume k: "k < LENGTH(8)"
    then have k8: "k < 8" by simp
    have "8 * i + k < 8 * length bs" using i k8 by simp
    moreover have "(8 * i + k) div 8 = i" "(8 * i + k) mod 8 = k" using k8 by simp_all
    ultimately show "bit (to_little_endian (length bs) (from_little_endian bs :: 'a word) ! i) k
        \<longleftrightarrow> bit (bs ! i) k"
      using i k8 assms
      by (auto simp add: to_little_endian_nth bit_simps bit_from_little_endian)
  qed
qed

section \<open>Reads and writes on slabs that agree outside a set\<close>

lemma eq_outside_refl [simp]: "eq_outside X d d"
  by (simp add: eq_outside_def)

lemma eq_outside_sym: "eq_outside X d d' \<Longrightarrow> eq_outside X d' d"
  by (simp add: eq_outside_def)

lemma eq_outside_trans:
  "eq_outside X d d' \<Longrightarrow> eq_outside Y d' d'' \<Longrightarrow> eq_outside (X \<union> Y) d d''"
  by (simp add: eq_outside_def)

lemma eq_outside_mono: "eq_outside X d d' \<Longrightarrow> X \<subseteq> Y \<Longrightarrow> eq_outside Y d d'"
  by (auto simp add: eq_outside_def)

lemma eq_outside_length: "eq_outside X d d' \<Longrightarrow> length d' = length d"
  by (simp add: eq_outside_def)

lemma eq_outside_empty: "eq_outside {} d d' \<longleftrightarrow> d' = d"
  by (auto simp add: eq_outside_def intro: nth_equalityI)

lemma write_bytes_length:
  "write_bytes d p bs = Some (d', q) \<Longrightarrow> length d' = length d \<and> q = p + length bs"
  by (auto simp add: write_bytes_def split: if_splits)

lemma write_bytes_nth:
  "write_bytes d p bs = Some (d', q) \<Longrightarrow> i < length d \<Longrightarrow>
   d' ! i = (if p \<le> i \<and> i < p + length bs then bs ! (i - p) else d ! i)"
  by (auto simp add: write_bytes_def nth_append split: if_splits)

lemma write_bytes_eq_outside:
  "write_bytes d p bs = Some (d', q) \<Longrightarrow> eq_outside {p ..< p + length bs} d d'"
  by (auto simp add: eq_outside_def write_bytes_length write_bytes_nth)

lemma read_bytes_write_bytes:
  "write_bytes d p bs = Some (d', q) \<Longrightarrow> read_bytes d' p (length bs) = Some (bs, q)"
  by (auto simp add: write_bytes_def read_bytes_def split: if_splits)

lemma read_bytes_eq_outside:
  assumes "eq_outside X d d'" "X \<inter> {p ..< p + n} = {}"
  shows "read_bytes d' p n = read_bytes d p n"
proof (cases "p + n \<le> length d")
  case True
  have "take n (drop p d') = take n (drop p d)"
  proof (rule nth_equalityI)
    show "length (take n (drop p d')) = length (take n (drop p d))"
      using assms(1) by (simp add: eq_outside_def)
  next
    fix i assume "i < length (take n (drop p d'))"
    then have i: "i < n" "p + i < length d'" by auto
    then have "p + i \<notin> X" using assms(2) by auto
    then show "take n (drop p d') ! i = take n (drop p d) ! i"
      using i assms(1) by (simp add: eq_outside_def)
  qed
  then show ?thesis
    using True assms(1) by (simp add: read_bytes_def eq_outside_def)
next
  case False
  then show ?thesis
    using assms(1) by (simp add: read_bytes_def eq_outside_def)
qed

lemma read_byte_eq_outside:
  assumes "eq_outside X d d'" "p \<notin> X"
  shows "read_byte d' p = read_byte d p"
  using assms by (auto simp add: read_byte_def eq_outside_def)

lemma read_2_eq_outside:
  "eq_outside X d d' \<Longrightarrow> X \<inter> {p ..< p + 2} = {} \<Longrightarrow>
   read_2_bytes_little_endian d' p = read_2_bytes_little_endian d p"
  by (simp add: read_2_bytes_little_endian_def read_bytes_eq_outside)

lemma read_4_eq_outside:
  "eq_outside X d d' \<Longrightarrow> X \<inter> {p ..< p + 4} = {} \<Longrightarrow>
   read_4_bytes_little_endian d' p = read_4_bytes_little_endian d p"
  by (simp add: read_4_bytes_little_endian_def read_bytes_eq_outside)

lemma read_8_eq_outside:
  "eq_outside X d d' \<Longrightarrow> X \<inter> {p ..< p + 8} = {} \<Longrightarrow>
   read_8_bytes_little_endian d' p = read_8_bytes_little_endian d p"
  by (simp add: read_8_bytes_little_endian_def read_bytes_eq_outside)

lemma size_extent_pos: "0 < size_extent d p"
  by (simp add: size_extent_def)

lemma read_size_position:
  "read_size_little_endian d p = Some (v, q) \<Longrightarrow> q = p + size_extent d p \<and> q \<le> length d"
  by (auto simp add: read_size_little_endian_def read_byte_def size_extent_def
      read_8_bytes_little_endian_def read_4_bytes_little_endian_def
      read_2_bytes_little_endian_def read_bytes_def
      split: if_splits option.splits)

lemma read_size_eq_outside:
  assumes "eq_outside X d d'" "X \<inter> {p ..< p + size_extent d p} = {}"
  shows "read_size_little_endian d' p = read_size_little_endian d p"
proof (cases "p < length d")
  case False
  then show ?thesis
    using assms(1) by (simp add: read_size_little_endian_def read_byte_def eq_outside_def)
next
  case True
  have pX: "p \<notin> X" using assms(2) size_extent_pos [of d p] by auto
  then have b: "d' ! p = d ! p" using assms(1) True by (simp add: eq_outside_def)
  have rb: "read_byte d' p = read_byte d p"
    using assms(1) pX by (rule read_byte_eq_outside)
  have r8: "d ! p = 0xff \<Longrightarrow> read_8_bytes_little_endian d' (p + 1) = read_8_bytes_little_endian d (p + 1)"
    using assms True by (intro read_8_eq_outside) (auto simp add: size_extent_def)
  have r4: "d ! p = 0xfe \<Longrightarrow> read_4_bytes_little_endian d' (p + 1) = read_4_bytes_little_endian d (p + 1)"
    using assms True by (intro read_4_eq_outside) (auto simp add: size_extent_def)
  have r2: "d ! p = 0xfd \<Longrightarrow> read_2_bytes_little_endian d' (p + 1) = read_2_bytes_little_endian d (p + 1)"
    using assms True by (intro read_2_eq_outside) (auto simp add: size_extent_def)
  show ?thesis
    using True rb r8 r4 r2 
    by (simp add: read_size_little_endian_def read_byte_def)
qed

section \<open>The metadata writer\<close>

lemmas serial_defs = read_bytes_def read_byte_def read_2_bytes_little_endian_def
  read_4_bytes_little_endian_def read_8_bytes_little_endian_def read_size_little_endian_def
  write_bytes_def write_byte_def write_2_bytes_little_endian_def write_4_bytes_little_endian_def

lemmas size_defs = height_size_def position_size_def state_size_def median_time_past_size_def
  index_spend_size_def value_size_def spend_size_def metadata_size_def

lemma update_writer_eq:
  "update_writer d h p st m =
     (if 11 \<le> length d
      then Some (to_little_endian 4 h @ to_little_endian 2 p @ [state_byte st] @
                 to_little_endian 4 m @ drop 11 d)
      else None)"
  by (auto simp add: update_writer_def write_4_bytes_little_endian_def
      write_2_bytes_little_endian_def write_byte_def write_bytes_def
      split: option.splits)

lemma update_writer_length:
  "update_writer d h p st m = Some d' \<Longrightarrow> length d' = length d"
  by (auto simp add: update_writer_eq split: if_splits)

lemma update_writer_eq_outside:
  "update_writer d h p st m = Some d' \<Longrightarrow> eq_outside {0 ..< metadata_size} d d'"
  by (auto simp add: update_writer_eq eq_outside_def nth_append size_defs split: if_splits)

lemma to_transaction_state_byte:
  "st \<in> {invalid, stored, pooled, indexed, confirmed} \<Longrightarrow>
   to_transaction_state (state_byte st) = st"
  by (auto simp add: to_transaction_state_def)

lemma update_writer_read_back:
  assumes "update_writer d h p st m = Some d'"
  shows "result_height d' = Some h" "result_position d' = Some p"
    "result_state d' = Some (to_transaction_state (state_byte st))"
    "result_median_time_past d' = Some m"
proof -
  have d': "d' = to_little_endian 4 h @ to_little_endian 2 p @ [state_byte st] @
                 to_little_endian 4 m @ drop 11 d" and len: "11 \<le> length d"
    using assms by (auto simp add: update_writer_eq split: if_splits)
  have h: "from_little_endian (to_little_endian 4 h) = h"
    and p: "from_little_endian (to_little_endian 2 p) = p"
    and m: "from_little_endian (to_little_endian 4 m) = m"
    by (simp_all add: from_to_little_endian)
  show "result_height d' = Some h"
    using len by (simp add: result_height_def read_4_bytes_little_endian_def read_bytes_def d' h)
  show "result_position d' = Some p"
    using len by (simp add: result_position_def read_2_bytes_little_endian_def read_bytes_def
        d' p size_defs)
  show "result_state d' = Some (to_transaction_state (state_byte st))"
    using len by (simp add: result_state_def read_byte_def d' size_defs nth_append)
  show "result_median_time_past d' = Some m"
    using len by (simp add: result_median_time_past_def read_4_bytes_little_endian_def
        read_bytes_def d' m size_defs)
qed

section \<open>The database operations\<close>

lemma find_hash_cache_remove [simp]: "find_hash (cache_remove s pt) h = find_hash s h"
  by (simp add: find_hash_def find_link_def cache_remove_def split: option.splits)

lemma slabs_cache_remove [simp]: "slabs (cache_remove s pt) = slabs s"
  by (simp add: cache_remove_def)

lemma hash_table_cache_remove [simp]: "hash_table (cache_remove s pt) = hash_table s"
  by (simp add: cache_remove_def)

lemma slabs_element_write [simp]: "slabs (element_write s l d) = (slabs s)(l \<mapsto> d)"
  by (simp add: element_write_def)

lemma hash_table_element_write [simp]: "hash_table (element_write s l d) = hash_table s"
  by (simp add: element_write_def)

lemma cache_element_write [simp]: "cache (element_write s l d) = cache s"
  by (simp add: element_write_def)

lemma find_hash_SomeD:
  "find_hash s h = Some (l, d) \<Longrightarrow> hash_table s h = Some l \<and> slabs s l = Some d"
  by (auto simp add: find_hash_def find_link_def split: option.splits)

lemma unat_ucast_down:
  fixes h :: "'a::len word"
  assumes "unat h < 2 ^ LENGTH('b::len)"
  shows "unat (ucast h :: 'b word) = unat h"
  using unat_of_nat [where 'a='b, of "unat h"] assms by simp

lemma ucast_ucast_32_64:
  fixes h :: size_t
  assumes "h \<le> ucast max_uint32"
  shows "(ucast (ucast h :: uint32_t) :: size_t) = h"
proof -
  have b: "unat h < 2 ^ 32"
    using assms by (simp add: max_uint32_def word_le_nat_alt)
  have "unat (ucast h :: uint32_t) = unat h"
    using b by (simp add: unat_ucast_down)
  moreover have "unat (ucast (ucast h :: uint32_t) :: size_t) = unat (ucast h :: uint32_t)"
  proof (rule unat_ucast_down)
    have "unat (ucast h :: uint32_t) < 2 ^ LENGTH(32)" by (rule unsigned_less)
    then show "unat (ucast h :: uint32_t) < 2 ^ LENGTH(64)" by simp
  qed
  ultimately show ?thesis
    by (simp add: word_unat_eq_iff)
qed

lemma ucast_ucast_16_64:
  fixes h :: size_t
  assumes "h \<le> ucast max_uint16"
  shows "(ucast (ucast h :: uint16_t) :: size_t) = h"
proof -
  have b: "unat h < 2 ^ 16"
    using assms by (simp add: max_uint16_def word_le_nat_alt)
  have "unat (ucast h :: uint16_t) = unat h"
    using b by (simp add: unat_ucast_down)
  moreover have "unat (ucast (ucast h :: uint16_t) :: size_t) = unat (ucast h :: uint16_t)"
  proof (rule unat_ucast_down)
    have "unat (ucast h :: uint16_t) < 2 ^ LENGTH(16)" by (rule unsigned_less)
    then show "unat (ucast h :: uint16_t) < 2 ^ LENGTH(64)" by simp
  qed
  ultimately show ?thesis
    by (simp add: word_unat_eq_iff)
qed

lemma update_TrueD:
  assumes "update s l h m p st = Some (True, s')"
  shows "\<exists>d d'. slabs s l = Some d \<and> update_writer d (ucast h) (ucast p) st m = Some d' \<and>
           s' = element_write s l d'"
  using assms
  by (auto simp add: update_def find_link_def split: if_splits option.splits)

lemma confirm_TrueD:
  assumes "confirm s l h m p = Some (True, s')"
  shows "\<exists>s''. update s'' l h m p confirmed = Some (True, s')"
  using assms
  by (auto simp add: confirm_def split: if_splits option.splits)

section \<open>Runs on the small database\<close>

lemma is_null_null_point: "is_null null_point"
  by (simp add: is_null_def null_point_def)

lemma not_null_points:
  "\<not> is_null point00" "\<not> is_null point01" "\<not> is_null point02" "\<not> is_null point10"
  by (simp_all add: is_null_def point00_def point01_def point02_def point10_def null_index_def)

lemma hash0_neq_hash1: "hash0 \<noteq> hash1"
  by (simp add: hash0_def hash1_def)

lemma find_hash_db0:
  "find_hash db0 hash0 = Some (0, slab0)" "find_hash db0 hash1 = Some (100, slab1)"
  using hash0_neq_hash1 by (auto simp add: find_hash_def find_link_def db0_def)

lemma get_hash_db0:
  "get_hash db0 hash0 = Some slab0" "get_hash db0 hash1 = Some slab1"
  by (simp_all add: get_hash_def find_hash_db0)

lemma get_link_db0:
  "get_link db0 0 = Some slab0" "get_link db0 100 = Some slab1"
  by (simp_all add: get_link_def find_link_def db0_def)

lemma cache_populate_db0: "cache_populate db0 pt fh = None"
  by (simp add: cache_populate_def db0_def)

lemma slab0_metadata:
  "result_height slab0 = Some 5" "result_state slab0 = Some confirmed"
  "result_position slab0 = Some 0" "result_median_time_past slab0 = Some 16"
  by code_simp+

lemma slab1_metadata:
  "result_height slab1 = Some 0" "result_state slab1 = Some pooled"
  "result_position slab1 = Some unconfirmed" "result_median_time_past slab1 = Some 0"
  by code_simp+

lemma spend_reader_slab0: "spend_reader slab0 = Some (5, confirmed, 2)"
  by code_simp

lemma spend_reader_slab1: "spend_reader slab1 = Some (0, pooled, 1)"
  by code_simp

lemma result_inpoints_slab1: "result_inpoints slab1 = Some [point01]"
  by code_simp

lemma result_inpoints_slab0: "result_inpoints slab0 = Some [null_point]"
  by code_simp

lemma spend_writer_slab0: "spend_writer slab0 1 7 = Some slab0_spent"
  by code_simp

lemma update_writer_slab1: "update_writer slab1 7 3 confirmed 3000000000 = Some slab1_confirmed"
  by code_simp

lemma spend_db0_point01:
  "spend db0 point01 7 = Some (True, element_write (cache_remove db0 point01) 0 slab0_spent)"
proof -
  have "index point01 = 1" "hash point01 = hash0" by (simp_all add: point01_def)
  then show ?thesis
    using not_null_points(2)
    by (simp add: spend_def Let_def find_hash_db0 spend_reader_slab0 not_spent_def word_le_nat_alt
        spend_writer_slab0)
qed

lemma find_link_after_spend:
  "find_link (element_write (cache_remove db0 point01) 0 slab0_spent) 100 = Some (100, slab1)"
  by (simp add: find_link_def db0_def)

lemma confirm_db0: "confirm db0 100 7 3000000000 3 = Some (True, db1)"
  by (simp add: confirm_def get_link_db0 result_inpoints_slab1 spend_db0_point01
      update_def find_link_after_spend db1_def update_writer_slab1
      max_uint32_def max_uint16_def unconfirmed_def)

section \<open>The walk over the outputs and the spender heights\<close>

lemma read_size_advances:
  "read_size_little_endian d p = Some (v, q) \<Longrightarrow> p < q"
  using read_size_position [of d p v q] size_extent_pos [of d p] by auto

lemma skip_outputs_mono:
  "skip_outputs d p n = Some q \<Longrightarrow> p + 14 * n \<le> q"
proof (induction n arbitrary: p)
  case 0
  then show ?case by simp
next
  case (Suc n)
  from Suc.prems obtain len r where
    r: "read_size_little_endian d (p + spend_size) = Some (len, r)"
    and s: "skip_outputs d (r + unat len) n = Some q"
    by (auto split: option.splits)
  have "p + spend_size < r" using r by (rule read_size_advances)
  moreover have "r + unat len + 14 * n \<le> q" using s by (rule Suc.IH)
  ultimately show ?case by (simp add: size_defs)
qed

lemma skip_outputs_add:
  "skip_outputs d p (m + n) =
     (case skip_outputs d p m of None \<Rightarrow> None | Some q \<Rightarrow> skip_outputs d q n)"
  by (induction m arbitrary: p) (auto split: option.splits)

lemma slot_bytes_lower: "x \<in> slot_bytes d p n \<Longrightarrow> p < x"
proof (induction n arbitrary: p)
  case 0
  then show ?case by simp
next
  case (Suc n)
  show ?case
  proof (cases "x \<in> {p + index_spend_size ..< p + index_spend_size + height_size}")
    case True
    then show ?thesis by (simp add: size_defs)
  next
    case False
    with Suc.prems obtain len r where
      r: "read_size_little_endian d (p + spend_size) = Some (len, r)"
      and x: "x \<in> slot_bytes d (r + unat len) n"
      by (auto split: option.splits)
    have "p + spend_size < r" using r by (rule read_size_advances)
    moreover have "r + unat len < x" using x by (rule Suc.IH)
    ultimately show ?thesis by simp
  qed
qed

lemma slot_bytes_upper:
  "skip_outputs d p n = Some q \<Longrightarrow> x \<in> slot_bytes d p n \<Longrightarrow> x < q"
proof (induction n arbitrary: p)
  case 0
  then show ?case by simp
next
  case (Suc n)
  from Suc.prems(1) obtain len r where
    r: "read_size_little_endian d (p + spend_size) = Some (len, r)"
    and s: "skip_outputs d (r + unat len) n = Some q"
    by (auto split: option.splits)
  have pr: "p + spend_size < r" using r by (rule read_size_advances)
  have rq: "r + unat len \<le> q" using skip_outputs_mono [OF s] by simp
  show ?case
  proof (cases "x \<in> {p + index_spend_size ..< p + index_spend_size + height_size}")
    case True
    then show ?thesis using pr rq by (simp add: size_defs)
  next
    case False
    then have "x \<in> slot_bytes d (r + unat len) n"
      using Suc.prems(2) r by auto
    then show ?thesis using s by (rule Suc.IH [rotated])
  qed
qed

lemma slot_in_slot_bytes:
  "skip_outputs d p j = Some q \<Longrightarrow> j < n \<Longrightarrow>
   {q + index_spend_size ..< q + index_spend_size + height_size} \<subseteq> slot_bytes d p n"
proof (induction j arbitrary: p n)
  case 0
  then obtain m where "n = Suc m" by (cases n) auto
  with 0 show ?case by auto
next
  case (Suc j)
  from Suc.prems(2) obtain m where n: "n = Suc m" and jm: "j < m" by (cases n) auto
  from Suc.prems(1) obtain len r where
    r: "read_size_little_endian d (p + spend_size) = Some (len, r)"
    and s: "skip_outputs d (r + unat len) j = Some q"
    by (auto split: option.splits)
  show ?case
    using Suc.IH [OF s jm] r by (auto simp add: n)
qed

text \<open>
  Changes inside the spender heights do not touch what the walk over the outputs reads.
\<close>

lemma walk_eq_outside:
  assumes "eq_outside X d d'" "X \<subseteq> {..< p + spend_size} \<union> slot_bytes d p n"
  shows "skip_outputs d' p k = skip_outputs d p k \<and> slot_bytes d' p k = slot_bytes d p k"
  using assms
proof (induction k arbitrary: p n)
  case 0
  then show ?case by simp
next
  case (Suc k)
  let ?v = "p + spend_size"
  show ?case
  proof (cases "read_size_little_endian d ?v")
    case None
    have "slot_bytes d p n \<subseteq> {..< ?v}"
      using None by (cases n) (auto simp add: size_defs)
    then have "X \<subseteq> {..< ?v}"
      using Suc.prems(2) by blast
    then have "X \<inter> {?v ..< ?v + size_extent d ?v} = {}"
      by fastforce
    then have "read_size_little_endian d' ?v = None"
      using read_size_eq_outside [OF Suc.prems(1)] None by simp
    then show ?thesis using None by simp
  next
    case (Some a)
    then obtain len r where r: "read_size_little_endian d ?v = Some (len, r)"
      by (cases a) auto
    have rr: "r = ?v + size_extent d ?v"
      using read_size_position [OF r] by simp
    have sub: "slot_bytes d p n \<subseteq> {..< ?v} \<union> slot_bytes d (r + unat len) (n - 1)"
      using r by (cases n) (auto simp add: size_defs)
    have above: "\<And>x. x \<in> slot_bytes d (r + unat len) (n - 1) \<Longrightarrow> r < x"
      using slot_bytes_lower by fastforce
    have "X \<inter> {?v ..< ?v + size_extent d ?v} = {}"
      using Suc.prems(2) sub above rr by fastforce
    then have r': "read_size_little_endian d' ?v = Some (len, r)"
      using read_size_eq_outside [OF Suc.prems(1)] r by simp
    have "?v < r" using r by (rule read_size_advances)
    then have "X \<subseteq> {..< r + unat len + spend_size} \<union> slot_bytes d (r + unat len) (n - 1)"
      using Suc.prems(2) sub by fastforce
    then have "skip_outputs d' (r + unat len) k = skip_outputs d (r + unat len) k \<and>
               slot_bytes d' (r + unat len) k = slot_bytes d (r + unat len) k"
      using Suc.IH [OF Suc.prems(1)] by blast
    then show ?thesis using r r' by simp
  qed
qed

lemma read_inpoints_eq_outside:
  assumes "eq_outside X d d'" "X \<subseteq> {..< p}"
  shows "read_inpoints d' p n = read_inpoints d p n"
  using assms(2)
proof (induction n arbitrary: p)
  case 0
  then show ?case by simp
next
  case (Suc n)
  have h: "read_bytes d' p 32 = read_bytes d p 32"
    using Suc.prems by (intro read_bytes_eq_outside [OF assms(1)]) auto
  have i: "read_2_bytes_little_endian d' (p + 32) = read_2_bytes_little_endian d (p + 32)"
    using Suc.prems by (intro read_2_eq_outside [OF assms(1)]) auto
  have l: "read_size_little_endian d' (p + 34) = read_size_little_endian d (p + 34)"
    using Suc.prems by (intro read_size_eq_outside [OF assms(1)]) auto
  have rest: "read_inpoints d' q n = read_inpoints d q n" if "p \<le> q" for q
    using that Suc.prems by (intro Suc.IH) auto
  show ?case
  proof (cases "read_bytes d p 32")
    case None
    then show ?thesis using h by simp
  next
    case (Some a)
    then obtain bs where a: "read_bytes d p 32 = Some (bs, p + 32)"
      by (cases a) (auto simp add: read_bytes_def split: if_splits)
    show ?thesis
    proof (cases "read_2_bytes_little_endian d (p + 32)")
      case None
      then show ?thesis using h i a by simp
    next
      case (Some b)
      then obtain v where b: "read_2_bytes_little_endian d (p + 32) = Some (v, p + 34)"
        by (cases b)
          (auto simp add: read_2_bytes_little_endian_def read_bytes_def
            split: if_splits option.splits)
      show ?thesis
      proof (cases "read_size_little_endian d (p + 34)")
        case None
        then show ?thesis using h i l a b by simp
      next
        case (Some c)
        then obtain len r where c: "read_size_little_endian d (p + 34) = Some (len, r)"
          by (cases c) auto
        have "p \<le> r + unat len + 4"
          using read_size_advances [OF c] by simp
        then show ?thesis
          using h i l a b c rest [of "r + unat len + 4"] by simp
      qed
    qed
  qed
qed

lemma slot_eq_refl [simp]: "slot_eq d d"
  by (simp add: slot_eq_def)

lemma slot_eq_length: "slot_eq d d' \<Longrightarrow> length d' = length d"
  by (simp add: slot_eq_def eq_outside_def)

lemma all_slots_lower:
  "read_size_little_endian d metadata_size = Some (n, p) \<Longrightarrow> x \<in> all_slots d \<Longrightarrow> p < x"
  by (auto simp add: all_slots_def dest: slot_bytes_lower)

text \<open>
  What is read from a record before its outputs does not depend on bytes from the first
  output on; the metadata (the first eleven bytes) aside, it is the output count.
\<close>

lemma count_eq_outside:
  assumes "eq_outside X d d'"
    "read_size_little_endian d metadata_size = Some (n, p)" "X \<inter> {metadata_size ..< p} = {}"
  shows "read_size_little_endian d' metadata_size = Some (n, p)"
proof -
  have "p = metadata_size + size_extent d metadata_size"
    using read_size_position [OF assms(2)] by simp
  then show ?thesis
    using read_size_eq_outside [OF assms(1), of metadata_size] assms(2,3) by simp
qed

lemma count_eq_outside_None:
  assumes "eq_outside X d d'"
    "read_size_little_endian d metadata_size = None" "X \<subseteq> {..< metadata_size}"
  shows "read_size_little_endian d' metadata_size = None"
proof -
  have "X \<inter> {metadata_size ..< metadata_size + size_extent d metadata_size} = {}"
    using assms(3) by fastforce
  then show ?thesis
    using read_size_eq_outside [OF assms(1), of metadata_size] assms(2) by simp
qed

lemma slot_eq_count:
  assumes "slot_eq d d'"
  shows "read_size_little_endian d' metadata_size = read_size_little_endian d metadata_size"
proof (cases "read_size_little_endian d metadata_size")
  case None
  then have "all_slots d = {}" by (simp add: all_slots_def)
  then have "d' = d" using assms by (simp add: slot_eq_def eq_outside_empty)
  then show ?thesis by simp
next
  case (Some a)
  then obtain n p where np: "read_size_little_endian d metadata_size = Some (n, p)"
    by (cases a) auto
  have "all_slots d \<inter> {metadata_size ..< p} = {}"
    using all_slots_lower [OF np] by fastforce
  then show ?thesis
    using count_eq_outside [OF _ np] assms np by (simp add: slot_eq_def)
qed

lemma slot_eq_walk:
  assumes "slot_eq d d'" "read_size_little_endian d metadata_size = Some (n, p)"
  shows "skip_outputs d' p k = skip_outputs d p k" "slot_bytes d' p k = slot_bytes d p k"
proof -
  have "all_slots d \<subseteq> {..< p + spend_size} \<union> slot_bytes d p (unat n)"
    using assms(2) by (simp add: all_slots_def)
  then show "skip_outputs d' p k = skip_outputs d p k" "slot_bytes d' p k = slot_bytes d p k"
    using walk_eq_outside [of "all_slots d" d d' p "unat n" k] assms(1)
    by (simp_all add: slot_eq_def)
qed

lemma slot_eq_all_slots: "slot_eq d d' \<Longrightarrow> all_slots d' = all_slots d"
  using slot_eq_count [of d d'] slot_eq_walk(2) [of d d']
  by (auto simp add: all_slots_def split: option.splits)

lemma slot_eq_sym: "slot_eq d d' \<Longrightarrow> slot_eq d' d"
  using slot_eq_all_slots [of d d'] by (simp add: slot_eq_def eq_outside_sym)

lemma slot_eq_trans: "slot_eq d d' \<Longrightarrow> slot_eq d' d'' \<Longrightarrow> slot_eq d d''"
  using slot_eq_all_slots [of d d'] eq_outside_trans [of "all_slots d" d d' "all_slots d" d'']
  by (simp add: slot_eq_def)

lemma slot_eq_slot_position: "slot_eq d d' \<Longrightarrow> slot_position d' idx = slot_position d idx"
  using slot_eq_count [of d d'] slot_eq_walk(1) [of d d']
  by (auto simp add: slot_position_def split: option.splits)

lemma slot_eq_spend_reader:
  assumes "slot_eq d d'"
  shows "spend_reader d' = spend_reader d"
proof (cases "read_size_little_endian d metadata_size")
  case None
  then have "all_slots d = {}" by (simp add: all_slots_def)
  then have "d' = d" using assms by (simp add: slot_eq_def eq_outside_empty)
  then show ?thesis by simp
next
  case (Some a)
  then obtain n p where np: "read_size_little_endian d metadata_size = Some (n, p)"
    by (cases a) auto
  have low: "\<And>x. x \<in> all_slots d \<Longrightarrow> metadata_size < x"
    using all_slots_lower [OF np] read_size_advances [OF np] by fastforce
  have e: "eq_outside (all_slots d) d d'" using assms by (simp add: slot_eq_def)
  have h: "read_4_bytes_little_endian d' 0 = read_4_bytes_little_endian d 0"
    using low by (intro read_4_eq_outside [OF e]) (fastforce simp add: size_defs)
  have s: "read_byte d' 6 = read_byte d 6"
    using low by (intro read_byte_eq_outside [OF e]) (fastforce simp add: size_defs)
  have p4: "\<And>v q. read_4_bytes_little_endian d 0 = Some (v, q) \<Longrightarrow> q = 4"
    by (auto simp add: read_4_bytes_little_endian_def read_bytes_def split: if_splits option.splits)
  have p6: "\<And>v q. read_byte d 6 = Some (v, q) \<Longrightarrow> q = 7"
    by (auto simp add: read_byte_def split: if_splits)
  have c: "read_size_little_endian d' 11 = read_size_little_endian d 11"
    using slot_eq_count [OF assms] by (simp add: size_defs)
  show ?thesis
    unfolding spend_reader_def
    by (auto simp add: h s c size_defs dest!: p4 p6 split: option.splits)
qed

lemma slot_eq_result_inpoints:
  assumes "slot_eq d d'"
  shows "result_inpoints d' = result_inpoints d"
proof (cases "read_size_little_endian d metadata_size")
  case None
  then show ?thesis
    using slot_eq_count [OF assms] by (simp add: result_inpoints_def)
next
  case (Some a)
  then obtain n p where np: "read_size_little_endian d metadata_size = Some (n, p)"
    by (cases a) auto
  have np': "read_size_little_endian d' metadata_size = Some (n, p)"
    using slot_eq_count [OF assms] np by simp
  have w: "skip_outputs d' p (unat n) = skip_outputs d p (unat n)"
    using slot_eq_walk(1) [OF assms np] .
  show ?thesis
  proof (cases "skip_outputs d p (unat n)")
    case None
    then show ?thesis using np np' w by (simp add: result_inpoints_def)
  next
    case (Some q)
    have up: "all_slots d \<subseteq> {..< q}"
      using slot_bytes_upper [OF Some] np by (auto simp add: all_slots_def)
    have e: "eq_outside (all_slots d) d d'" using assms by (simp add: slot_eq_def)
    have "all_slots d \<inter> {q ..< q + size_extent d q} = {}"
      using up by fastforce
    then have c: "read_size_little_endian d' q = read_size_little_endian d q"
      using read_size_eq_outside [OF e] by simp
    show ?thesis
    proof (cases "read_size_little_endian d q")
      case None
      then show ?thesis using np np' w Some c by (simp add: result_inpoints_def)
    next
      case (Some b)
      then obtain m r where b: "read_size_little_endian d q = Some (m, r)"
        by (cases b) auto
      have "all_slots d \<subseteq> {..< r}"
        using up read_size_advances [OF b] by fastforce
      then have "read_inpoints d' r (unat m) = read_inpoints d r (unat m)"
        using read_inpoints_eq_outside [OF e] by simp
      then show ?thesis
        using np np' w \<open>skip_outputs d p (unat n) = Some q\<close> c b
        by (simp add: result_inpoints_def)
    qed
  qed
qed

lemma unat_ucast_up_32_64: "unat (ucast (i :: uint32_t) :: size_t) = unat i"
proof (rule unat_ucast_down)
  have "unat i < 2 ^ LENGTH(32)" by (rule unsigned_less)
  then show "unat i < 2 ^ LENGTH(64)" by simp
qed

lemma spend_writer_eq:
  "spend_writer d idx sp =
     (case slot_position d idx of
        None \<Rightarrow> None
      | Some q \<Rightarrow> map_option fst (write_4_bytes_little_endian d q (ucast sp)))"
  by (simp add: spend_writer_def slot_position_def split: option.splits)

lemma spend_writer_SomeD:
  assumes "spend_writer d idx sp = Some d'"
  shows "\<exists>q. slot_position d idx = Some q \<and> q + 4 \<le> length d \<and>
           write_bytes d q (to_little_endian 4 (ucast sp :: uint32_t)) = Some (d', q + 4) \<and>
           eq_outside {q ..< q + 4} d d'"
proof -
  from assms obtain q r where q: "slot_position d idx = Some q"
    and w: "write_bytes d q (to_little_endian 4 (ucast sp :: uint32_t)) = Some (d', r)"
    by (auto simp add: spend_writer_eq write_4_bytes_little_endian_def split: option.splits)
  have r: "r = q + 4" and len: "q + 4 \<le> length d"
    using w by (auto simp add: write_bytes_def split: if_splits)
  have "eq_outside {q ..< q + 4} d d'"
    using write_bytes_eq_outside [OF w] by simp
  then show ?thesis using q w r len by blast
qed

lemma spend_writer_SomeI:
  assumes "slot_position d idx = Some q" "q + 4 \<le> length d"
  shows "\<exists>d'. spend_writer d idx sp = Some d'"
  using assms by (simp add: spend_writer_eq write_4_bytes_little_endian_def write_bytes_def)

lemma slot_position_lower:
  assumes "slot_position d idx = Some q"
  shows "metadata_size + 2 \<le> q"
proof -
  from assms obtain n p s where np: "read_size_little_endian d metadata_size = Some (n, p)"
    and s: "skip_outputs d p (unat idx) = Some s" and q: "q = s + index_spend_size"
    by (auto simp add: slot_position_def split: option.splits)
  have "metadata_size < p" using np by (rule read_size_advances)
  moreover have "p \<le> s" using skip_outputs_mono [OF s] by simp
  ultimately show ?thesis using q by (simp add: size_defs)
qed

text \<open>The spender heights of two outputs are the same four bytes or do not overlap.\<close>

lemma slot_position_apart:
  assumes "slot_position d i = Some q" "slot_position d j = Some r" "unat i < unat j"
  shows "q + 14 \<le> r"
proof -
  from assms(1) obtain n p s where np: "read_size_little_endian d metadata_size = Some (n, p)"
    and s: "skip_outputs d p (unat i) = Some s" and q: "q = s + index_spend_size"
    by (auto simp add: slot_position_def split: option.splits)
  from assms(2) np obtain t where t: "skip_outputs d p (unat j) = Some t"
    and r: "r = t + index_spend_size"
    by (auto simp add: slot_position_def split: option.splits)
  obtain k where k: "unat j = unat i + Suc k"
    using assms(3) less_iff_Suc_add by auto
  have "skip_outputs d s (Suc k) = Some t"
    using skip_outputs_add [of d p "unat i" "Suc k"] s t k by simp
  then have "s + 14 * Suc k \<le> t" by (rule skip_outputs_mono)
  then show ?thesis using q r by simp
qed

lemma slot_position_same_or_apart:
  assumes "slot_position d i = Some q" "slot_position d j = Some r"
  shows "q = r \<or> q + 14 \<le> r \<or> r + 14 \<le> q"
proof -
  consider "unat i < unat j" | "unat j < unat i" | "unat i = unat j" by linarith
  then show ?thesis
  proof cases
    case 1
    then show ?thesis using slot_position_apart [OF assms] by simp
  next
    case 2
    then show ?thesis using slot_position_apart [OF assms(2,1)] by simp
  next
    case 3
    then have "i = j" by (simp add: word_unat_eq_iff)
    then show ?thesis using assms by simp
  qed
qed

text \<open>Writing one spender height moves no spender height.\<close>

lemma slot_write_position:
  assumes "slot_position d idx = Some q" "eq_outside {q ..< q + 4} d d'"
  shows "slot_position d' j = slot_position d j"
proof -
  from assms(1) obtain n p s where np: "read_size_little_endian d metadata_size = Some (n, p)"
    and s: "skip_outputs d p (unat idx) = Some s" and q: "q = s + index_spend_size"
    by (auto simp add: slot_position_def split: option.splits)
  have ps: "p \<le> s" using skip_outputs_mono [OF s] by simp
  have "{q ..< q + 4} \<inter> {metadata_size ..< p} = {}"
    using ps q by (auto simp add: size_defs)
  then have np': "read_size_little_endian d' metadata_size = Some (n, p)"
    using count_eq_outside [OF assms(2) np] by simp
  have "{q ..< q + 4} \<subseteq> slot_bytes d p (Suc (unat idx))"
    using slot_in_slot_bytes [OF s, of "Suc (unat idx)"] q by (simp add: size_defs)
  then have "{q ..< q + 4} \<subseteq> {..< p + spend_size} \<union> slot_bytes d p (Suc (unat idx))"
    by blast
  then have "skip_outputs d' p (unat j) = skip_outputs d p (unat j)"
    using walk_eq_outside [OF assms(2)] by blast
  then show ?thesis using np np' by (simp add: slot_position_def)
qed

lemma slot_in_all_slots:
  assumes "read_size_little_endian d metadata_size = Some (n, p)" "ucast idx < n"
    "slot_position d idx = Some q"
  shows "{q ..< q + 4} \<subseteq> all_slots d"
proof -
  from assms(1,3) obtain s where s: "skip_outputs d p (unat idx) = Some s"
    and q: "q = s + index_spend_size"
    by (auto simp add: slot_position_def split: option.splits)
  have "unat idx < unat n"
    using assms(2) by (simp add: word_less_nat_alt unat_ucast_up_32_64)
  then show ?thesis
    using slot_in_slot_bytes [OF s, of "unat n"] q assms(1)
    by (simp add: all_slots_def size_defs)
qed

lemma spend_writer_slot_eq:
  assumes "spend_writer d idx sp = Some d'"
    "read_size_little_endian d metadata_size = Some (n, p)" "ucast idx < n"
  shows "slot_eq d d'"
proof -
  obtain q where q: "slot_position d idx = Some q" and e: "eq_outside {q ..< q + 4} d d'"
    using spend_writer_SomeD [OF assms(1)] by blast
  show ?thesis
    unfolding slot_eq_def
    using e slot_in_all_slots [OF assms(2,3) q] by (rule eq_outside_mono)
qed

lemma read_4_write_4:
  assumes "write_bytes d q (to_little_endian 4 (v :: uint32_t)) = Some (d', r)"
  shows "read_4_bytes_little_endian d' q = Some (v, q + 4)"
proof -
  have "read_bytes d' q 4 = Some (to_little_endian 4 v, r)"
    using read_bytes_write_bytes [OF assms] by simp
  moreover have "r = q + 4" using write_bytes_length [OF assms] by simp
  ultimately show ?thesis
    by (simp add: read_4_bytes_little_endian_def from_to_little_endian)
qed

lemma spend_writer_content:
  assumes "spend_writer d idx sp = Some d'"
  shows "output_spender_height d' idx = Some (ucast sp)"
proof -
  obtain q where q: "slot_position d idx = Some q"
    and w: "write_bytes d q (to_little_endian 4 (ucast sp :: uint32_t)) = Some (d', q + 4)"
    and e: "eq_outside {q ..< q + 4} d d'"
    using spend_writer_SomeD [OF assms] by blast
  have "slot_position d' idx = Some q"
    using slot_write_position [OF q e] q by simp
  then show ?thesis
    using read_4_write_4 [OF w] by (simp add: output_spender_height_def)
qed

text \<open>Another output keeps its spender height.\<close>

lemma spend_writer_other_content:
  assumes "spend_writer d idx sp = Some d'" "j \<noteq> idx"
  shows "output_spender_height d' j = output_spender_height d j"
proof -
  obtain q where q: "slot_position d idx = Some q"
    and e: "eq_outside {q ..< q + 4} d d'"
    using spend_writer_SomeD [OF assms(1)] by blast
  have pos: "slot_position d' j = slot_position d j"
    using slot_write_position [OF q e] .
  show ?thesis
  proof (cases "slot_position d j")
    case None
    then show ?thesis using pos by (simp add: output_spender_height_def)
  next
    case (Some r)
    have "unat j \<noteq> unat idx" using assms(2) by (simp add: word_unat_eq_iff)
    then have "q + 14 \<le> r \<or> r + 14 \<le> q"
      using slot_position_apart [OF q Some] slot_position_apart [OF Some q] by linarith
    then have "{q ..< q + 4} \<inter> {r ..< r + 4} = {}" by auto
    then have "read_4_bytes_little_endian d' r = read_4_bytes_little_endian d r"
      using read_4_eq_outside [OF e] by simp
    then show ?thesis using pos Some by (simp add: output_spender_height_def)
  qed
qed

lemma spend_TrueD:
  assumes "\<not> is_null pt" "spend s pt sp = Some (True, s')"
  shows "\<exists>l d d' height outputs.
           find_hash s (hash pt) = Some (l, d) \<and>
           spend_reader d = Some (height, confirmed, outputs) \<and>
           \<not> ucast height > sp \<and> ucast (index pt) < outputs \<and>
           spend_writer d (index pt) sp = Some d' \<and>
           s' = element_write (if sp \<noteq> ucast not_spent then cache_remove s pt else s) l d'"
  using assms
  by (auto simp add: spend_def Let_def split: option.splits if_splits)

lemma spend_reader_count:
  "spend_reader d = Some (height, state, outputs) \<Longrightarrow>
   \<exists>p. read_size_little_endian d metadata_size = Some (outputs, p)"
proof -
  have p4: "\<And>v q. read_4_bytes_little_endian d 0 = Some (v, q) \<Longrightarrow> q = 4"
    by (auto simp add: read_4_bytes_little_endian_def read_bytes_def split: if_splits option.splits)
  have p6: "\<And>v q. read_byte d 6 = Some (v, q) \<Longrightarrow> q = 7"
    by (auto simp add: read_byte_def split: if_splits)
  assume "spend_reader d = Some (height, state, outputs)"
  then show ?thesis
    by (auto simp add: spend_reader_def size_defs dest!: p4 p6 split: option.splits)
qed

text \<open>Reading back the output whose spender height was written.\<close>

lemma read_byte_position: "read_byte d p = Some (b, q) \<Longrightarrow> q = p + 1"
  by (auto simp add: read_byte_def split: if_splits)

lemma read_4_position: "read_4_bytes_little_endian d p = Some (v, q) \<Longrightarrow> q = p + 4"
  by (auto simp add: read_4_bytes_little_endian_def read_bytes_def
      split: if_splits option.splits)

lemma read_8_position: "read_8_bytes_little_endian d p = Some (v, q) \<Longrightarrow> q = p + 8"
  by (auto simp add: read_8_bytes_little_endian_def read_bytes_def
      split: if_splits option.splits)

lemma read_output_after_write:
  assumes "read_output d s = Some (out, r)" "eq_outside {s + 1 ..< s + 5} d d'"
    "read_4_bytes_little_endian d' (s + 1) = Some (v, s + 5)"
  shows "read_output d' s = Some (out\<lparr>spender_height := v\<rparr>, r)"
proof -
  from assms(1) obtain flag p1 where f: "read_byte d s = Some (flag, p1)"
    by (auto simp add: read_output_def split: option.splits)
  have p1: "p1 = s + 1" using f by (rule read_byte_position)
  from assms(1) f obtain sh p2 where h: "read_4_bytes_little_endian d p1 = Some (sh, p2)"
    by (auto simp add: read_output_def split: option.splits)
  have p2: "p2 = s + 5" using read_4_position [OF h] p1 by simp
  from assms(1) f h obtain vl p3 where v: "read_8_bytes_little_endian d p2 = Some (vl, p3)"
    by (auto simp add: read_output_def split: option.splits)
  have p3: "p3 = s + 13" using read_8_position [OF v] p2 by simp
  from assms(1) f h v obtain len p4 where l: "read_size_little_endian d p3 = Some (len, p4)"
    by (auto simp add: read_output_def split: option.splits)
  from assms(1) f h v l obtain sc where c: "read_bytes d p4 (unat len) = Some (sc, r)"
    and out: "out = \<lparr>index_spend = flag, spender_height = sh, output_value = vl, script = sc\<rparr>"
    by (auto simp add: read_output_def split: option.splits)
  have f': "read_byte d' s = Some (flag, p1)"
    using read_byte_eq_outside [OF assms(2), of s] f by simp
  have h': "read_4_bytes_little_endian d' p1 = Some (v, p2)"
    using assms(3) p1 p2 by simp
  have "{s + 1 ..< s + 5} \<inter> {p2 ..< p2 + 8} = {}" using p2 by auto
  then have v': "read_8_bytes_little_endian d' p2 = Some (vl, p3)"
    using read_8_eq_outside [OF assms(2), of p2] v by simp
  have "{s + 1 ..< s + 5} \<inter> {p3 ..< p3 + size_extent d p3} = {}" using p3 by auto
  then have l': "read_size_little_endian d' p3 = Some (len, p4)"
    using read_size_eq_outside [OF assms(2), of p3] l by simp
  have "p3 < p4" using l by (rule read_size_advances)
  then have "{s + 1 ..< s + 5} \<inter> {p4 ..< p4 + unat len} = {}" using p3 by auto
  then have c': "read_bytes d' p4 (unat len) = Some (sc, r)"
    using read_bytes_eq_outside [OF assms(2)] c by simp
  show ?thesis
    using f' h' v' l' c' out by (simp add: read_output_def)
qed

lemma result_output_after_spend:
  assumes "spend_writer d idx sp = Some d'" "result_output d idx = Some (Some out)"
  shows "result_output d' idx = Some (Some (out\<lparr>spender_height := ucast sp\<rparr>))"
proof -
  obtain q where q: "slot_position d idx = Some q"
    and w: "write_bytes d q (to_little_endian 4 (ucast sp :: uint32_t)) = Some (d', q + 4)"
    and e: "eq_outside {q ..< q + 4} d d'"
    using spend_writer_SomeD [OF assms(1)] by blast
  from assms(2) obtain n p s r where
    np: "read_size_little_endian d metadata_size = Some (n, p)"
    and lt: "\<not> ucast idx \<ge> n"
    and s: "skip_outputs d p (unat idx) = Some s"
    and o: "read_output d s = Some (out, r)"
    by (auto simp add: result_output_def split: option.splits if_splits)
  have qs: "q = s + 1" using q np s by (simp add: slot_position_def size_defs)
  have q': "slot_position d' idx = Some q"
    using slot_write_position [OF q e] q by simp
  have "p \<le> s" using skip_outputs_mono [OF s] by simp
  then have "{q ..< q + 4} \<inter> {metadata_size ..< p} = {}"
    using qs by auto
  then have np': "read_size_little_endian d' metadata_size = Some (n, p)"
    using count_eq_outside [OF e np] by simp
  have s': "skip_outputs d' p (unat idx) = Some s"
    using q' np' qs by (auto simp add: slot_position_def size_defs split: option.splits)
  have "{q ..< q + 4} = {s + 1 ..< s + 5}" using qs by auto
  then have e': "eq_outside {s + 1 ..< s + 5} d d'"
    using e by simp
  have "q + 4 = s + 5" using qs by simp
  then have r4: "read_4_bytes_little_endian d' (s + 1) = Some (ucast sp, s + 5)"
    using read_4_write_4 [OF w] qs by simp
  have "read_output d' s = Some (out\<lparr>spender_height := ucast sp\<rparr>, r)"
    using o e' r4 by (rule read_output_after_write)
  then show ?thesis
    using np' lt s' by (simp add: result_output_def)
qed

section \<open>Changes of the metadata only\<close>

lemma header_eq_count:
  assumes "eq_outside {..< metadata_size} d d'"
  shows "read_size_little_endian d' metadata_size = read_size_little_endian d metadata_size"
proof -
  have "{..< metadata_size} \<inter>
      {metadata_size ..< metadata_size + size_extent d metadata_size} = {}"
    by auto
  then show ?thesis
    using assms by (rule read_size_eq_outside [rotated])
qed

lemma header_eq_slot_position:
  assumes "eq_outside {..< metadata_size} d d'"
  shows "slot_position d' j = slot_position d j"
proof (cases "read_size_little_endian d metadata_size")
  case None
  then show ?thesis using header_eq_count [OF assms] by (simp add: slot_position_def)
next
  case (Some a)
  then obtain n p where np: "read_size_little_endian d metadata_size = Some (n, p)"
    by (cases a) auto
  have "metadata_size < p" using np by (rule read_size_advances)
  then have "{..< metadata_size} \<subseteq> {..< p + spend_size} \<union> slot_bytes d p 0" by auto
  then have "skip_outputs d' p (unat j) = skip_outputs d p (unat j)"
    using walk_eq_outside [OF assms] by blast
  then show ?thesis using np header_eq_count [OF assms] by (simp add: slot_position_def)
qed

lemma header_eq_content:
  assumes "eq_outside {..< metadata_size} d d'"
  shows "output_spender_height d' j = output_spender_height d j"
proof (cases "slot_position d j")
  case None
  then show ?thesis
    using header_eq_slot_position [OF assms, of j] by (simp add: output_spender_height_def)
next
  case (Some q)
  have "metadata_size + 2 \<le> q" using Some by (rule slot_position_lower)
  then have "{..< metadata_size} \<inter> {q ..< q + 4} = {}" by auto
  then have "read_4_bytes_little_endian d' q = read_4_bytes_little_endian d q"
    using read_4_eq_outside [OF assms] by simp
  then show ?thesis
    using Some header_eq_slot_position [OF assms, of j] by (simp add: output_spender_height_def)
qed

lemma header_eq_result_inpoints:
  assumes "eq_outside {..< metadata_size} d d'"
  shows "result_inpoints d' = result_inpoints d"
proof (cases "read_size_little_endian d metadata_size")
  case None
  then show ?thesis using header_eq_count [OF assms] by (simp add: result_inpoints_def)
next
  case (Some a)
  then obtain n p where np: "read_size_little_endian d metadata_size = Some (n, p)"
    by (cases a) auto
  have np': "read_size_little_endian d' metadata_size = Some (n, p)"
    using header_eq_count [OF assms] np by simp
  have mp: "metadata_size < p" using np by (rule read_size_advances)
  then have "{..< metadata_size} \<subseteq> {..< p + spend_size} \<union> slot_bytes d p 0" by auto
  then have w: "skip_outputs d' p (unat n) = skip_outputs d p (unat n)"
    using walk_eq_outside [OF assms] by blast
  show ?thesis
  proof (cases "skip_outputs d p (unat n)")
    case None
    then show ?thesis using np np' w by (simp add: result_inpoints_def)
  next
    case (Some q)
    have pq: "p \<le> q" using skip_outputs_mono [OF Some] by simp
    then have "{..< metadata_size} \<inter> {q ..< q + size_extent d q} = {}"
      using mp by auto
    then have c: "read_size_little_endian d' q = read_size_little_endian d q"
      using read_size_eq_outside [OF assms] by simp
    show ?thesis
    proof (cases "read_size_little_endian d q")
      case None
      then show ?thesis using np np' w Some c by (simp add: result_inpoints_def)
    next
      case (Some b)
      then obtain m r where b: "read_size_little_endian d q = Some (m, r)"
        by (cases b) auto
      have "{..< metadata_size} \<subseteq> {..< r}"
        using mp pq read_size_advances [OF b] by auto
      then have "read_inpoints d' r (unat m) = read_inpoints d r (unat m)"
        using read_inpoints_eq_outside [OF assms] by simp
      then show ?thesis
        using np np' w \<open>skip_outputs d p (unat n) = Some q\<close> c b
        by (simp add: result_inpoints_def)
    qed
  qed
qed

lemma update_writer_header_eq:
  "update_writer d h p st m = Some d' \<Longrightarrow> eq_outside {..< metadata_size} d d'"
  using update_writer_eq_outside [of d h p st m d'] by (simp add: atLeast0LessThan)

section \<open>One spend\<close>

lemma slot_equiv_refl [simp]: "slot_equiv s s"
  by (simp add: slot_equiv_def option.rel_refl)

lemma slot_equiv_sym:
  assumes "slot_equiv s t"
  shows "slot_equiv t s"
proof -
  have "rel_option slot_eq (slabs t l) (slabs s l)" for l
  proof -
    have "rel_option slot_eq (slabs s l) (slabs t l)"
      using assms by (simp add: slot_equiv_def)
    then show ?thesis
      by (cases "slabs s l"; cases "slabs t l") (auto intro: slot_eq_sym)
  qed
  then show ?thesis using assms by (simp add: slot_equiv_def)
qed

lemma slot_equiv_trans:
  assumes "slot_equiv s t" "slot_equiv t u"
  shows "slot_equiv s u"
proof -
  have "rel_option slot_eq (slabs s l) (slabs u l)" for l
  proof -
    have "rel_option slot_eq (slabs s l) (slabs t l)" "rel_option slot_eq (slabs t l) (slabs u l)"
      using assms by (simp_all add: slot_equiv_def)
    then show ?thesis
      by (cases "slabs s l"; cases "slabs t l"; cases "slabs u l")
        (auto intro: slot_eq_trans)
  qed
  then show ?thesis using assms by (simp add: slot_equiv_def)
qed

lemma slot_equiv_cache_remove [simp]: "slot_equiv s (cache_remove s pt)"
  by (simp add: slot_equiv_def option.rel_refl)

lemma spend_slot_equiv:
  assumes "spend s pt sp = Some (ok, s')"
  shows "slot_equiv s s'"
proof (cases "is_null pt \<or> \<not> ok")
  case True
  then have "s' = s \<or> s' = cache_remove s pt"
    using assms by (auto simp add: spend_def Let_def split: option.splits if_splits)
  then show ?thesis by auto
next
  case False
  then have nn: "\<not> is_null pt" and t: "spend s pt sp = Some (True, s')"
    using assms by auto
  obtain l d d' height outputs where f: "find_hash s (hash pt) = Some (l, d)"
    and r: "spend_reader d = Some (height, confirmed, outputs)"
    and lt: "ucast (index pt) < outputs"
    and w: "spend_writer d (index pt) sp = Some d'"
    and s': "s' = element_write (if sp \<noteq> ucast not_spent then cache_remove s pt else s) l d'"
    using spend_TrueD [OF nn t] by blast
  obtain p where "read_size_little_endian d metadata_size = Some (outputs, p)"
    using spend_reader_count [OF r] by blast
  then have "slot_eq d d'" using spend_writer_slot_eq [OF w] lt by blast
  moreover have "slabs s l = Some d" using f by (simp add: find_hash_SomeD)
  ultimately show ?thesis
    by (simp add: slot_equiv_def s' option.rel_refl)
qed

lemma ucast_down_up_32: "(ucast (ucast (x :: uint32_t) :: size_t) :: uint32_t) = x"
proof -
  have b: "unat x < 2 ^ LENGTH(32)" by (rule unsigned_less)
  have a: "unat (ucast x :: size_t) = unat x" by (rule unat_ucast_up_32_64)
  have "unat (ucast (ucast x :: size_t) :: uint32_t) = unat (ucast x :: size_t)"
    by (rule unat_ucast_down) (use a b in simp)
  then show ?thesis using a by (simp add: word_unat_eq_iff)
qed

lemma ucast_down_up_16: "(ucast (ucast (x :: uint16_t) :: size_t) :: uint16_t) = x"
proof -
  have "unat x < 2 ^ LENGTH(16)" by (rule unsigned_less)
  then have a: "unat (ucast x :: size_t) = unat x"
    by (intro unat_ucast_down) simp
  have "unat (ucast (ucast x :: size_t) :: uint16_t) = unat (ucast x :: size_t)"
    by (rule unat_ucast_down) (use a \<open>unat x < 2 ^ LENGTH(16)\<close> in simp)
  then show ?thesis using a by (simp add: word_unat_eq_iff)
qed

lemma find_hash_element_write:
  "find_hash (element_write s l d) h =
     (if hash_table s h = Some l then Some (l, d) else find_hash s h)"
  by (auto simp add: find_hash_def find_link_def element_write_def split: option.splits)

lemma find_hash_slot_equiv:
  assumes "slot_equiv s t" "find_hash s h = Some (l, e)"
  shows "\<exists>e'. find_hash t h = Some (l, e') \<and> slot_eq e e'"
proof -
  have "hash_table t h = Some l" "slabs s l = Some e"
    using assms by (simp_all add: slot_equiv_def find_hash_SomeD)
  moreover have "rel_option slot_eq (slabs s l) (slabs t l)"
    using assms(1) by (simp add: slot_equiv_def)
  ultimately show ?thesis
    by (cases "slabs t l") (auto simp add: find_hash_def find_link_def)
qed

lemma spend_content:
  assumes "\<not> is_null pt" "spend s pt sp = Some (True, s')"
  shows "\<exists>l e. find_hash s' (hash pt) = Some (l, e) \<and>
           output_spender_height e (index pt) = Some (ucast sp)"
proof -
  obtain l d d' where f: "find_hash s (hash pt) = Some (l, d)"
    and w: "spend_writer d (index pt) sp = Some d'"
    and s': "s' = element_write (if sp \<noteq> ucast not_spent then cache_remove s pt else s) l d'"
    using spend_TrueD [OF assms] by blast
  have "hash_table s (hash pt) = Some l" using f by (simp add: find_hash_SomeD)
  then have "find_hash s' (hash pt) = Some (l, d')"
    by (simp add: s' find_hash_element_write)
  then show ?thesis using spend_writer_content [OF w] by blast
qed

lemma spend_preserves_content:
  assumes "spend s pt sp = Some (ok, s')" "slabs s l = Some e"
    "output_spender_height e j = Some (ucast sp)"
  shows "\<exists>e'. slabs s' l = Some e' \<and> output_spender_height e' j = Some (ucast sp)"
proof (cases "is_null pt \<or> \<not> ok")
  case True
  then have "s' = s \<or> s' = cache_remove s pt"
    using assms(1) by (auto simp add: spend_def Let_def split: option.splits if_splits)
  then show ?thesis using assms(2,3) by auto
next
  case False
  then have nn: "\<not> is_null pt" and t: "spend s pt sp = Some (True, s')"
    using assms(1) by auto
  obtain l0 d d' where f: "find_hash s (hash pt) = Some (l0, d)"
    and w: "spend_writer d (index pt) sp = Some d'"
    and s': "s' = element_write (if sp \<noteq> ucast not_spent then cache_remove s pt else s) l0 d'"
    using spend_TrueD [OF nn t] by blast
  show ?thesis
  proof (cases "l = l0")
    case False
    then show ?thesis using assms(2,3) by (simp add: s')
  next
    case True
    then have ed: "e = d" using f assms(2) by (simp add: find_hash_SomeD)
    have "output_spender_height d' j = Some (ucast sp)"
    proof (cases "j = index pt")
      case True
      then show ?thesis using spend_writer_content [OF w] by simp
    next
      case False
      then show ?thesis using spend_writer_other_content [OF w] assms(3) ed by simp
    qed
    then show ?thesis using True by (simp add: s')
  qed
qed

section \<open>The loop over the inputs\<close>

lemma spend_inputs_slot_equiv:
  "spend_inputs s pts sp = Some (ok, s') \<Longrightarrow> slot_equiv s s'"
proof (induction pts arbitrary: s)
  case Nil
  then show ?case by simp
next
  case (Cons pt pts)
  from Cons.prems obtain ok1 s1 where 1: "spend s pt sp = Some (ok1, s1)"
    by (auto split: option.splits)
  show ?case
  proof (cases ok1)
    case False
    then show ?thesis using Cons.prems 1 spend_slot_equiv [OF 1] by simp
  next
    case True
    then have "spend_inputs s1 pts sp = Some (ok, s')" using Cons.prems 1 by simp
    then have "slot_equiv s1 s'" by (rule Cons.IH)
    then show ?thesis using spend_slot_equiv [OF 1] slot_equiv_trans by blast
  qed
qed

lemma spend_inputs_preserves_content:
  "spend_inputs s pts sp = Some (ok, s') \<Longrightarrow> slabs s l = Some e \<Longrightarrow>
   output_spender_height e j = Some (ucast sp) \<Longrightarrow>
   \<exists>e'. slabs s' l = Some e' \<and> output_spender_height e' j = Some (ucast sp)"
proof (induction pts arbitrary: s e)
  case Nil
  then show ?case by simp
next
  case (Cons pt pts)
  from Cons.prems(1) obtain ok1 s1 where 1: "spend s pt sp = Some (ok1, s1)"
    by (auto split: option.splits)
  obtain e1 where e1: "slabs s1 l = Some e1" "output_spender_height e1 j = Some (ucast sp)"
    using spend_preserves_content [OF 1 Cons.prems(2,3)] by blast
  show ?case
  proof (cases ok1)
    case False
    then show ?thesis using Cons.prems(1) 1 e1 by simp
  next
    case True
    then have "spend_inputs s1 pts sp = Some (ok, s')" using Cons.prems(1) 1 by simp
    then show ?thesis using e1 by (rule Cons.IH)
  qed
qed

lemma spend_inputs_all_spent:
  "spend_inputs s pts sp = Some (True, s') \<Longrightarrow> all_spent s' pts (ucast sp)"
proof (induction pts arbitrary: s)
  case Nil
  then show ?case by (simp add: all_spent_def)
next
  case (Cons pt pts)
  from Cons.prems obtain s1 where 1: "spend s pt sp = Some (True, s1)"
    and 2: "spend_inputs s1 pts sp = Some (True, s')"
    by (auto split: option.splits if_splits)
  have rest: "all_spent s' pts (ucast sp)" using 2 by (rule Cons.IH)
  have "\<exists>l e. find_hash s' (hash pt) = Some (l, e) \<and>
          output_spender_height e (index pt) = Some (ucast sp)" if nn: "\<not> is_null pt"
  proof -
    obtain l e where f: "find_hash s1 (hash pt) = Some (l, e)"
      and c: "output_spender_height e (index pt) = Some (ucast sp)"
      using spend_content [OF nn 1] by blast
    have "slabs s1 l = Some e" using f by (simp add: find_hash_SomeD)
    then obtain e' where e': "slabs s' l = Some e'"
      "output_spender_height e' (index pt) = Some (ucast sp)"
      using spend_inputs_preserves_content [OF 2 _ c] by blast
    have "hash_table s' = hash_table s1"
      using spend_inputs_slot_equiv [OF 2] by (simp add: slot_equiv_def)
    then have "find_hash s' (hash pt) = Some (l, e')"
      using f e'(1) by (simp add: find_hash_def find_link_def find_hash_SomeD)
    then show ?thesis using e'(2) by blast
  qed
  then show ?case using rest by (simp add: all_spent_def)
qed

lemma unconfirm_TrueD:
  assumes "unconfirm s l = Some (True, s')"
  shows "\<exists>d pts s1. get_link s l = Some d \<and> result_inpoints d = Some pts \<and>
           spend_inputs s pts (ucast not_spent) = Some (True, s1) \<and>
           update s1 l (ucast rule_fork_unverified) no_time (ucast unconfirmed) pooled
             = Some (True, s')"
  using assms by (auto simp add: unconfirm_def split: option.splits if_splits)

lemma get_link_Some: "get_link s l = Some d \<longleftrightarrow> slabs s l = Some d"
  by (auto simp add: get_link_def find_link_def)

lemma db1_facts:
  "find_hash db1 hash0 = Some (0, slab0_spent)"
  "get_link db1 100 = Some slab1_confirmed"
  using hash0_neq_hash1
  by (simp_all add: db1_def find_hash_element_write find_hash_db0 get_link_Some db0_def)

lemma slab_spent_facts:
  "result_inpoints slab1_confirmed = Some [point01]"
  "spend_reader slab0_spent = Some (5, confirmed, 2)"
  "spend_writer slab0_spent 1 0xFFFFFFFF = Some slab0"
  "update_writer slab1_confirmed 0 0xFFFF pooled 0 = Some slab1"
  by code_simp+

lemma spend_db1_point01:
  "spend db1 point01 (ucast not_spent) = Some (True, element_write db1 0 slab0)"
proof -
  have "index point01 = 1" "hash point01 = hash0" by (simp_all add: point01_def)
  then show ?thesis
    using not_null_points(2)
    by (simp add: spend_def Let_def db1_facts slab_spent_facts not_spent_def
        word_le_nat_alt word_less_nat_alt)
qed

lemma unconfirm_db1: "unconfirm db1 100 = Some (True, db2)"
proof -
  have "find_link (element_write db1 0 slab0) 100 = Some (100, slab1_confirmed)"
    by (simp add: find_link_def db1_def)
  then show ?thesis
    by (simp add: unconfirm_def db1_facts slab_spent_facts spend_db1_point01 update_def
        db2_def max_uint32_def max_uint16_def unconfirmed_def rule_fork_unverified_def
        no_time_def word_le_nat_alt)
qed

section \<open>The bytes a list of spends may change\<close>

lemma touched_Nil [simp]: "touched s [] l = {}"
  by (simp add: touched_def)

lemma touched_Cons:
  "touched s (pt # pts) l =
     (if \<not> is_null pt \<and> hash_table s (hash pt) = Some l
      then (case slabs s l of None \<Rightarrow> {} | Some e \<Rightarrow> spender_slot e (index pt)) else {})
     \<union> touched s pts l"
  by (auto simp add: touched_def)

lemma spender_slot_slot_eq: "slot_eq d d' \<Longrightarrow> spender_slot d' idx = spender_slot d idx"
  by (simp add: spender_slot_def slot_eq_slot_position)

lemma touched_slot_equiv:
  assumes "slot_equiv s t"
  shows "touched t pts l = touched s pts l"
proof -
  have h: "hash_table t = hash_table s" using assms by (simp add: slot_equiv_def)
  have "rel_option slot_eq (slabs s l) (slabs t l)" using assms by (simp add: slot_equiv_def)
  then have "(case slabs t l of None \<Rightarrow> {} | Some e \<Rightarrow> spender_slot e idx) =
             (case slabs s l of None \<Rightarrow> {} | Some e \<Rightarrow> spender_slot e idx)" for idx
    by (cases "slabs s l"; cases "slabs t l") (auto simp add: spender_slot_slot_eq)
  then show ?thesis by (simp add: touched_def h)
qed

lemma rel_option_eq_outside_refl [simp]: "rel_option (eq_outside X) x x"
  by (cases x) auto

lemma rel_option_eq_outside_trans:
  "rel_option (eq_outside X) x y \<Longrightarrow> rel_option (eq_outside Y) y z \<Longrightarrow>
   rel_option (eq_outside (X \<union> Y)) x z"
  by (cases x; cases y; cases z) (auto intro: eq_outside_trans)

lemma rel_option_eq_outside_mono:
  "rel_option (eq_outside X) x y \<Longrightarrow> X \<subseteq> Y \<Longrightarrow> rel_option (eq_outside Y) x y"
  by (cases x; cases y) (auto intro: eq_outside_mono)

lemma spend_frame_touched:
  assumes "spend s pt sp = Some (ok, s')"
  shows "rel_option (eq_outside (touched s [pt] l)) (slabs s l) (slabs s' l)"
proof (cases "is_null pt \<or> \<not> ok")
  case True
  then have "s' = s \<or> s' = cache_remove s pt"
    using assms by (auto simp add: spend_def Let_def split: option.splits if_splits)
  then show ?thesis by auto
next
  case False
  then have nn: "\<not> is_null pt" and t: "spend s pt sp = Some (True, s')"
    using assms by auto
  obtain l0 d d' where f: "find_hash s (hash pt) = Some (l0, d)"
    and w: "spend_writer d (index pt) sp = Some d'"
    and s': "s' = element_write (if sp \<noteq> ucast not_spent then cache_remove s pt else s) l0 d'"
    using spend_TrueD [OF nn t] by blast
  obtain q where q: "slot_position d (index pt) = Some q"
    and e: "eq_outside {q ..< q + 4} d d'"
    using spend_writer_SomeD [OF w] by blast
  have f': "hash_table s (hash pt) = Some l0" "slabs s l0 = Some d"
    using f by (simp_all add: find_hash_SomeD)
  show ?thesis
  proof (cases "l = l0")
    case True
    then have "touched s [pt] l = {q ..< q + 4}"
      using nn f' q by (simp add: touched_Cons spender_slot_def)
    then show ?thesis using True f' e by (simp add: s')
  next
    case False
    then show ?thesis by (simp add: s')
  qed
qed

lemma spend_inputs_frame:
  "spend_inputs s pts sp = Some (ok, s') \<Longrightarrow>
   rel_option (eq_outside (touched s pts l)) (slabs s l) (slabs s' l)"
proof (induction pts arbitrary: s)
  case Nil
  then show ?case by simp
next
  case (Cons pt pts)
  from Cons.prems obtain ok1 s1 where 1: "spend s pt sp = Some (ok1, s1)"
    by (auto split: option.splits)
  have a: "rel_option (eq_outside (touched s [pt] l)) (slabs s l) (slabs s1 l)"
    using 1 by (rule spend_frame_touched)
  have sub: "touched s [pt] l \<subseteq> touched s (pt # pts) l"
    by (auto simp add: touched_Cons)
  show ?case
  proof (cases ok1)
    case False
    then have "s' = s1" using Cons.prems 1 by simp
    then show ?thesis using a sub rel_option_eq_outside_mono by blast
  next
    case True
    then have 2: "spend_inputs s1 pts sp = Some (ok, s')" using Cons.prems 1 by simp
    have "rel_option (eq_outside (touched s1 pts l)) (slabs s1 l) (slabs s' l)"
      using 2 by (rule Cons.IH)
    then have b: "rel_option (eq_outside (touched s pts l)) (slabs s1 l) (slabs s' l)"
      using touched_slot_equiv [OF spend_slot_equiv [OF 1]] by simp
    have "touched s [pt] l \<union> touched s pts l = touched s (pt # pts) l"
      by (auto simp add: touched_Cons)
    then show ?thesis
      using rel_option_eq_outside_trans [OF a b] by simp
  qed
qed

lemma spend_inputs_hash_table:
  "spend_inputs s pts sp = Some (ok, s') \<Longrightarrow> hash_table s' = hash_table s"
  using spend_inputs_slot_equiv [of s pts sp ok s'] by (simp add: slot_equiv_def)

text \<open>A record that no point of the list names stays as it is.\<close>

lemma spend_inputs_untouched:
  assumes "spend_inputs s pts sp = Some (ok, s')"
    "\<forall>pt \<in> set pts. \<not> is_null pt \<longrightarrow> hash_table s (hash pt) \<noteq> Some l"
  shows "slabs s' l = slabs s l"
proof -
  have "touched s pts l = {}" using assms(2) by (auto simp add: touched_def)
  then have "rel_option (eq_outside {}) (slabs s l) (slabs s' l)"
    using spend_inputs_frame [OF assms(1), of l] by simp
  then show ?thesis
    by (cases "slabs s l"; cases "slabs s' l") (auto simp add: eq_outside_empty)
qed

section \<open>Spending commutes with a write to a record that is not spent from\<close>

lemma element_write_commute:
  "l \<noteq> l' \<Longrightarrow> element_write (element_write s l d) l' d'
     = element_write (element_write s l' d') l d"
  by (simp add: element_write_def fun_upd_twist)

lemma cache_remove_element_write:
  "cache_remove (element_write s l d) pt = element_write (cache_remove s pt) l d"
  by (simp add: cache_remove_def element_write_def)

lemma spend_element_write:
  assumes "\<not> is_null pt \<longrightarrow> hash_table s (hash pt) \<noteq> Some l"
  shows "spend (element_write s l x) pt sp =
           map_option (\<lambda>(ok, s'). (ok, element_write s' l x)) (spend s pt sp)"
proof (cases "is_null pt")
  case True
  then show ?thesis by (simp add: spend_def)
next
  case False
  then have n: "hash_table s (hash pt) \<noteq> Some l" using assms by simp
  have h: "hash_table (cache_remove s pt) (hash pt) \<noteq> Some l" using n by simp
  show ?thesis
  proof (cases "find_hash s (hash pt)")
    case None
    then show ?thesis
      using False n
      by (simp add: spend_def Let_def cache_remove_element_write find_hash_element_write)
  next
    case (Some a)
    then obtain l0 d where a: "find_hash s (hash pt) = Some (l0, d)" by (cases a) auto
    then have "l0 \<noteq> l" using n by (auto dest: find_hash_SomeD)
    then have c: "element_write (element_write t l x) l0 d'
        = element_write (element_write t l0 d') l x" for d' t
      by (simp add: element_write_commute)
    show ?thesis
      using False n a
      by (simp add: spend_def Let_def cache_remove_element_write find_hash_element_write c
          split: option.splits)
  qed
qed

lemma spend_inputs_element_write:
  assumes "\<forall>pt \<in> set pts. \<not> is_null pt \<longrightarrow> hash_table s (hash pt) \<noteq> Some l"
  shows "spend_inputs (element_write s l x) pts sp =
           map_option (\<lambda>(ok, s'). (ok, element_write s' l x)) (spend_inputs s pts sp)"
  using assms
proof (induction pts arbitrary: s)
  case Nil
  then show ?case by simp
next
  case (Cons pt pts)
  have 1: "spend (element_write s l x) pt sp =
           map_option (\<lambda>(ok, s'). (ok, element_write s' l x)) (spend s pt sp)"
    using Cons.prems by (intro spend_element_write) simp
  show ?case
  proof (cases "spend s pt sp")
    case None
    then show ?thesis using 1 by simp
  next
    case (Some a)
    then obtain ok1 s1 where a: "spend s pt sp = Some (ok1, s1)" by (cases a) auto
    have "hash_table s1 = hash_table s"
      using spend_slot_equiv [OF a] by (simp add: slot_equiv_def)
    then have "\<forall>pt \<in> set pts. \<not> is_null pt \<longrightarrow> hash_table s1 (hash pt) \<noteq> Some l"
      using Cons.prems by simp
    then have "spend_inputs (element_write s1 l x) pts sp =
           map_option (\<lambda>(ok, s'). (ok, element_write s' l x)) (spend_inputs s1 pts sp)"
      by (rule Cons.IH)
    then show ?thesis using 1 a by simp
  qed
qed

section \<open>When a spend succeeds\<close>

lemma spend_True_spendable:
  assumes "\<not> is_null pt" "spend s pt sp = Some (True, s')"
  shows "spendable s pt sp"
proof -
  obtain l d d' height outputs where f: "find_hash s (hash pt) = Some (l, d)"
    and r: "spend_reader d = Some (height, confirmed, outputs)"
    and h: "\<not> ucast height > sp" and lt: "ucast (index pt) < outputs"
    and w: "spend_writer d (index pt) sp = Some d'"
    using spend_TrueD [OF assms] by blast
  obtain q where "slot_position d (index pt) = Some q" "q + 4 \<le> length d"
    using spend_writer_SomeD [OF w] by blast
  then show ?thesis using f r h lt by (auto simp add: spendable_def)
qed

lemma spendable_spend_True:
  assumes "spendable s pt sp"
  shows "\<exists>s'. spend s pt sp = Some (True, s')"
proof (cases "is_null pt")
  case True
  then show ?thesis by (simp add: spend_def)
next
  case False
  obtain l e height outputs q where f: "find_hash s (hash pt) = Some (l, e)"
    and r: "spend_reader e = Some (height, confirmed, outputs)"
    and h: "\<not> ucast height > sp" and lt: "ucast (index pt) < outputs"
    and q: "slot_position e (index pt) = Some q" "q + 4 \<le> length e"
    using assms by (auto simp add: spendable_def)
  obtain d' where w: "spend_writer e (index pt) sp = Some d'"
    using spend_writer_SomeI [OF q] by blast
  have nle: "\<not> outputs \<le> ucast (index pt)" using lt by simp
  show ?thesis
  proof (cases "sp \<noteq> ucast not_spent")
    case True
    then show ?thesis
      using False f r h nle w by (simp add: spend_def Let_def)
  next
    case False
    then show ?thesis
      using \<open>\<not> is_null pt\<close> f r h nle w by (simp add: spend_def Let_def)
  qed
qed

lemma spendable_slot_equiv:
  assumes "slot_equiv s t" "spendable s pt sp"
  shows "spendable t pt sp"
proof -
  obtain l e height outputs q where f: "find_hash s (hash pt) = Some (l, e)"
    and r: "spend_reader e = Some (height, confirmed, outputs)"
    and h: "\<not> ucast height > sp" and lt: "ucast (index pt) < outputs"
    and q: "slot_position e (index pt) = Some q" "q + 4 \<le> length e"
    using assms(2) by (auto simp add: spendable_def)
  obtain e' where f': "find_hash t (hash pt) = Some (l, e')" and e: "slot_eq e e'"
    using find_hash_slot_equiv [OF assms(1) f] by blast
  have "spend_reader e' = Some (height, confirmed, outputs)"
    using slot_eq_spend_reader [OF e] r by simp
  moreover have "slot_position e' (index pt) = Some q"
    using slot_eq_slot_position [OF e] q(1) by simp
  moreover have "q + 4 \<le> length e'"
    using slot_eq_length [OF e] q(2) by simp
  ultimately show ?thesis using f' h lt by (auto simp add: spendable_def)
qed

lemma height_le_not_spent: "\<not> ucast (height :: uint32_t) > (ucast not_spent :: size_t)"
proof -
  have "unat height < 2 ^ LENGTH(32)" by (rule unsigned_less)
  then show ?thesis
    by (simp add: word_less_nat_alt unat_ucast_up_32_64 not_spent_def)
qed

lemma spendable_not_spent: "spendable s pt sp \<Longrightarrow> spendable s pt (ucast not_spent)"
  using height_le_not_spent by (fastforce simp add: spendable_def)

lemma spend_inputs_True_spendable:
  "spend_inputs s pts sp = Some (True, s') \<Longrightarrow>
   \<forall>pt \<in> set pts. \<not> is_null pt \<longrightarrow> spendable s pt sp"
proof (induction pts arbitrary: s)
  case Nil
  then show ?case by simp
next
  case (Cons pt pts)
  from Cons.prems obtain s1 where 1: "spend s pt sp = Some (True, s1)"
    and 2: "spend_inputs s1 pts sp = Some (True, s')"
    by (auto split: option.splits if_splits)
  have "\<forall>pt \<in> set pts. \<not> is_null pt \<longrightarrow> spendable s1 pt sp"
    using 2 by (rule Cons.IH)
  then have "\<forall>pt \<in> set pts. \<not> is_null pt \<longrightarrow> spendable s pt sp"
    using spendable_slot_equiv [OF slot_equiv_sym [OF spend_slot_equiv [OF 1]]] by blast
  then show ?case using spend_True_spendable [OF _ 1] by simp
qed

lemma spendable_spend_inputs_True:
  "\<forall>pt \<in> set pts. \<not> is_null pt \<longrightarrow> spendable s pt sp \<Longrightarrow>
   \<exists>s'. spend_inputs s pts sp = Some (True, s')"
proof (induction pts arbitrary: s)
  case Nil
  then show ?case by simp
next
  case (Cons pt pts)
  have "\<exists>s1. spend s pt sp = Some (True, s1)"
  proof (cases "is_null pt")
    case True
    then show ?thesis by (simp add: spend_def)
  next
    case False
    then show ?thesis using Cons.prems spendable_spend_True by simp
  qed
  then obtain s1 where 1: "spend s pt sp = Some (True, s1)" by blast
  have "\<forall>pt \<in> set pts. \<not> is_null pt \<longrightarrow> spendable s1 pt sp"
    using Cons.prems spendable_slot_equiv [OF spend_slot_equiv [OF 1]] by simp
  then obtain s' where "spend_inputs s1 pts sp = Some (True, s')"
    using Cons.IH by blast
  then show ?case using 1 by simp
qed

section \<open>The cache\<close>

lemma spend_True_cache:
  assumes "spend s pt sp = Some (True, s')"
  shows "cache s' = evicted sp [pt] (cache s)"
proof (cases "is_null pt")
  case True
  then have "s' = s" using assms by (simp add: spend_def)
  then show ?thesis using True by (auto simp add: evicted_def fun_eq_iff)
next
  case False
  obtain l d' where
    "s' = element_write (if sp \<noteq> ucast not_spent then cache_remove s pt else s) l d'"
    using spend_TrueD [OF False assms] by blast
  then show ?thesis
    using False by (auto simp add: evicted_def cache_remove_def fun_eq_iff)
qed

lemma evicted_Cons: "evicted sp pts (evicted sp [pt] c) = evicted sp (pt # pts) c"
  by (auto simp add: evicted_def fun_eq_iff)

lemma spend_inputs_cache:
  "spend_inputs s pts sp = Some (True, s') \<Longrightarrow> cache s' = evicted sp pts (cache s)"
proof (induction pts arbitrary: s)
  case Nil
  then show ?case by (simp add: evicted_def)
next
  case (Cons pt pts)
  from Cons.prems obtain s1 where 1: "spend s pt sp = Some (True, s1)"
    and 2: "spend_inputs s1 pts sp = Some (True, s')"
    by (auto split: option.splits if_splits)
  show ?case
    using Cons.IH [OF 2] spend_True_cache [OF 1] by (simp add: evicted_Cons)
qed

lemma evicted_idem: "evicted sp pts (evicted sp pts c) = evicted sp pts c"
  by (auto simp add: evicted_def fun_eq_iff)

lemma evicted_not_spent: "evicted (ucast not_spent) pts c = c"
  by (simp add: evicted_def)

section \<open>Spending again what was spent and unspent\<close>

lemma read_4_same_bytes:
  assumes "read_4_bytes_little_endian d q = Some (v, r)"
    "read_4_bytes_little_endian d' q = Some (v, r')" "q \<le> i" "i < q + 4"
  shows "d' ! i = d ! i"
proof -
  let ?b = "take 4 (drop q d)" and ?b' = "take 4 (drop q d')"
  have len: "q + 4 \<le> length d" "q + 4 \<le> length d'"
    and v: "from_little_endian ?b = v" "from_little_endian ?b' = v"
    using assms(1,2)
    by (auto simp add: read_4_bytes_little_endian_def read_bytes_def
        split: if_splits option.splits)
  have "to_little_endian (length ?b) (from_little_endian ?b :: uint32_t) = ?b"
    using len by (intro to_from_little_endian) simp
  moreover have "to_little_endian (length ?b') (from_little_endian ?b' :: uint32_t) = ?b'"
    using len by (intro to_from_little_endian) simp
  moreover have "length ?b = 4" "length ?b' = 4" using len by simp_all
  ultimately have "?b' = ?b" using v by simp
  then have "?b' ! (i - q) = ?b ! (i - q)" by simp
  then show ?thesis using assms(3,4) len by simp
qed

lemma respend_slabs:
  assumes "spend_inputs s pts sp = Some (True, a)"
    "spend_inputs a pts sp' = Some (True, t)"
    "spend_inputs t pts sp = Some (True, c)"
  shows "slabs c = slabs a"
proof
  fix l
  have at: "slot_equiv a t" using assms(2) by (rule spend_inputs_slot_equiv)
  have tc: "slot_equiv t c" using assms(3) by (rule spend_inputs_slot_equiv)
  have ac: "slot_equiv a c" using at tc by (rule slot_equiv_trans)
  have "rel_option (eq_outside (touched a pts l)) (slabs a l) (slabs t l)"
    using assms(2) by (rule spend_inputs_frame)
  moreover have "rel_option (eq_outside (touched a pts l)) (slabs t l) (slabs c l)"
    using spend_inputs_frame [OF assms(3), of l] touched_slot_equiv [OF at] by simp
  ultimately have fr: "rel_option (eq_outside (touched a pts l)) (slabs a l) (slabs c l)"
    using rel_option_eq_outside_trans by fastforce
  have sa: "all_spent a pts (ucast sp)" using assms(1) by (rule spend_inputs_all_spent)
  have sc: "all_spent c pts (ucast sp)" using assms(3) by (rule spend_inputs_all_spent)
  show "slabs c l = slabs a l"
  proof (cases "slabs a l")
    case None
    then show ?thesis using fr by (cases "slabs c l") auto
  next
    case (Some ea)
    then obtain ec where ec: "slabs c l = Some ec" and e: "eq_outside (touched a pts l) ea ec"
      using fr by (cases "slabs c l") auto
    have se: "slot_eq ea ec"
      using ac Some ec by (auto simp add: slot_equiv_def dest: spec [of _ l])
    have "ec = ea"
    proof (rule nth_equalityI)
      show "length ec = length ea" using e by (rule eq_outside_length)
    next
      fix i assume "i < length ec"
      then have i: "i < length ea" using e by (simp add: eq_outside_def)
      show "ec ! i = ea ! i"
      proof (cases "i \<in> touched a pts l")
        case False
        then show ?thesis using e i by (simp add: eq_outside_def)
      next
        case True
        then obtain pt where pt: "pt \<in> set pts" "\<not> is_null pt"
          "hash_table a (hash pt) = Some l" and ii: "i \<in> spender_slot ea (index pt)"
          using Some by (auto simp add: touched_def)
        obtain q where q: "slot_position ea (index pt) = Some q" "q \<le> i" "i < q + 4"
          using ii by (auto simp add: spender_slot_def split: option.splits)
        have fa: "find_hash a (hash pt) = Some (l, ea)"
          using pt(3) Some by (simp add: find_hash_def find_link_def)
        have "hash_table c (hash pt) = Some l"
          using pt(3) ac by (simp add: slot_equiv_def)
        then have fc: "find_hash c (hash pt) = Some (l, ec)"
          using ec by (simp add: find_hash_def find_link_def)
        have "output_spender_height ea (index pt) = Some (ucast sp)"
          using sa pt fa by (auto simp add: all_spent_def)
        then obtain r where ra: "read_4_bytes_little_endian ea q = Some (ucast sp, r)"
          using q(1) by (auto simp add: output_spender_height_def)
        have "output_spender_height ec (index pt) = Some (ucast sp)"
          using sc pt fc by (auto simp add: all_spent_def)
        moreover have "slot_position ec (index pt) = Some q"
          using slot_eq_slot_position [OF se] q(1) by simp
        ultimately obtain r' where
          rc: "read_4_bytes_little_endian ec q = Some (ucast sp, r')"
          by (auto simp add: output_spender_height_def)
        show ?thesis using ra rc q(2,3) by (rule read_4_same_bytes)
      qed
    qed
    then show ?thesis using Some ec by simp
  qed
qed

lemma element_write_overwrite [simp]:
  "element_write (element_write s l d) l d' = element_write s l d'"
  by (simp add: element_write_def)

lemma find_link_element_write [simp]: "find_link (element_write s l d) l = Some (l, d)"
  by (simp add: find_link_def)

lemma confirm_unfold:
  assumes "get_link s l = Some d" "result_inpoints d = Some pts"
    "height \<le> ucast max_uint32" "position \<le> ucast max_uint16"
    "position \<noteq> ucast unconfirmed"
  shows "confirm s l height mtp position =
     (case spend_inputs s pts height of
        None \<Rightarrow> None
      | Some (ok, s') \<Rightarrow>
          if \<not> ok then Some (False, s') else update s' l height mtp position confirmed)"
  using assms by (simp add: confirm_def)

lemma unconfirm_unfold:
  assumes "get_link s l = Some d" "result_inpoints d = Some pts"
  shows "unconfirm s l =
     (case spend_inputs s pts (ucast not_spent) of
        None \<Rightarrow> None
      | Some (ok, s') \<Rightarrow>
          if \<not> ok then Some (False, s')
          else update s' l (ucast rule_fork_unverified) no_time (ucast unconfirmed) pooled)"
  using assms by (simp add: unconfirm_def)

lemma update_unfold:
  assumes "slabs s l = Some d" "height \<le> ucast max_uint32" "position \<le> ucast max_uint16"
  shows "update s l height mtp position st =
     (case update_writer d (ucast height) (ucast position) st mtp of
        None \<Rightarrow> None | Some d' \<Rightarrow> Some (True, element_write s l d'))"
  using assms by (simp add: update_def find_link_def)

lemma confirm_asserts:
  assumes "confirm s l height mtp position = Some r"
  shows "height \<le> ucast max_uint32" "position \<le> ucast max_uint16"
    "position \<noteq> ucast unconfirmed"
  using assms by (auto simp add: confirm_def split: if_splits)

lemma update_writer_twice:
  assumes "update_writer d h p st m = Some d'"
  shows "update_writer d' h' p' st' m' = update_writer d h' p' st' m'"
  using assms by (auto simp add: update_writer_eq split: if_splits)

lemma unverified_asserts:
  "(ucast rule_fork_unverified :: size_t) \<le> ucast max_uint32"
  "(ucast unconfirmed :: size_t) \<le> ucast max_uint16"
  by (simp_all add: rule_fork_unverified_def unconfirmed_def max_uint32_def max_uint16_def
      word_le_nat_alt)

lemma confirm_unconfirm_confirm_state:
  assumes c1: "confirm s l height mtp position = Some (True, s1)"
    and g: "get_link s l = Some d" and i: "result_inpoints d = Some pts"
    and nsr: "\<forall>pt \<in> set pts. \<not> is_null pt \<longrightarrow> hash_table s (hash pt) \<noteq> Some l"
  shows "\<exists>s2. unconfirm s1 l = Some (True, s2) \<and>
              confirm s2 l height mtp position = Some (True, s1)"
proof -
  note as = confirm_asserts [OF c1]
  from c1 obtain a where A: "spend_inputs s pts height = Some (True, a)"
    and u1: "update a l height mtp position confirmed = Some (True, s1)"
    by (auto simp add: confirm_unfold [OF g i as] split: option.splits if_splits)
  have da: "slabs a l = Some d"
    using spend_inputs_untouched [OF A nsr] g by (simp add: get_link_Some)
  obtain x1 where w1: "update_writer d (ucast height) (ucast position) confirmed mtp = Some x1"
    and s1: "s1 = element_write a l x1"
    using update_TrueD [OF u1] da by auto
  have ha: "hash_table a = hash_table s" using A by (rule spend_inputs_hash_table)
  have nsr_a: "\<forall>pt \<in> set pts. \<not> is_null pt \<longrightarrow> hash_table a (hash pt) \<noteq> Some l"
    using nsr ha by simp
  have sa: "slot_equiv s a" using A by (rule spend_inputs_slot_equiv)
  have sp_a: "\<forall>pt \<in> set pts. \<not> is_null pt \<longrightarrow> spendable a pt height"
    using spend_inputs_True_spendable [OF A] spendable_slot_equiv [OF sa] by blast
  text \<open>unconfirm\<close>
  have i1: "result_inpoints x1 = Some pts"
    using header_eq_result_inpoints [OF update_writer_header_eq [OF w1]] i by simp
  have "\<forall>pt \<in> set pts. \<not> is_null pt \<longrightarrow> spendable a pt (ucast not_spent)"
    using sp_a spendable_not_spent by blast
  then obtain t where T: "spend_inputs a pts (ucast not_spent) = Some (True, t)"
    using spendable_spend_inputs_True by blast
  have T1: "spend_inputs s1 pts (ucast not_spent) = Some (True, element_write t l x1)"
    using spend_inputs_element_write [OF nsr_a, of x1 "ucast not_spent"] T by (simp add: s1)
  have "11 \<le> length d" using w1 by (simp add: update_writer_eq split: if_splits)
  then have "11 \<le> length x1" using update_writer_length [OF w1] by simp
  then obtain x2 where w2: "update_writer x1 (ucast (ucast rule_fork_unverified :: size_t))
      (ucast (ucast unconfirmed :: size_t)) pooled no_time = Some x2"
    by (simp add: update_writer_eq)
  define s2 where "s2 = element_write t l x2"
  have g1: "get_link s1 l = Some x1" by (simp add: s1 get_link_Some)
  have "slabs (element_write t l x1) l = Some x1" by simp
  then have "update (element_write t l x1) l (ucast rule_fork_unverified) no_time
      (ucast unconfirmed) pooled = Some (True, s2)"
    using w2 unverified_asserts by (simp add: update_unfold s2_def)
  then have un: "unconfirm s1 l = Some (True, s2)"
    using T1 by (simp add: unconfirm_unfold [OF g1 i1])
  text \<open>confirm again\<close>
  have i2: "result_inpoints x2 = Some pts"
    using header_eq_result_inpoints [OF update_writer_header_eq [OF w2]] i1 by simp
  have at: "slot_equiv a t" using T by (rule spend_inputs_slot_equiv)
  have ht: "hash_table t = hash_table a" using T by (rule spend_inputs_hash_table)
  have nsr_t: "\<forall>pt \<in> set pts. \<not> is_null pt \<longrightarrow> hash_table t (hash pt) \<noteq> Some l"
    using nsr_a ht by simp
  have "\<forall>pt \<in> set pts. \<not> is_null pt \<longrightarrow> spendable t pt height"
    using sp_a spendable_slot_equiv [OF at] by blast
  then obtain c where C: "spend_inputs t pts height = Some (True, c)"
    using spendable_spend_inputs_True by blast
  have C2: "spend_inputs s2 pts height = Some (True, element_write c l x2)"
    using spend_inputs_element_write [OF nsr_t, of x2 height] C by (simp add: s2_def)
  have w3: "update_writer x2 (ucast height) (ucast position) confirmed mtp = Some x1"
    using update_writer_twice [OF w2] update_writer_twice [OF w1] w1 by simp
  have g2: "get_link s2 l = Some x2" by (simp add: s2_def get_link_Some)
  have "slabs (element_write c l x2) l = Some x2" by simp
  then have "update (element_write c l x2) l height mtp position confirmed
      = Some (True, element_write c l x1)"
    using w3 as by (simp add: update_unfold)
  then have co: "confirm s2 l height mtp position = Some (True, element_write c l x1)"
    using C2 by (simp add: confirm_unfold [OF g2 i2 as])
  text \<open>the state is the one after the first confirm\<close>
  have "slabs c = slabs a" using A T C by (rule respend_slabs)
  moreover have "hash_table c = hash_table a"
    using spend_inputs_hash_table [OF C] ht by simp
  moreover have "cache c = cache a"
    using spend_inputs_cache [OF C] spend_inputs_cache [OF T] spend_inputs_cache [OF A]
    by (simp add: evicted_not_spent evicted_idem)
  ultimately have "c = a" by (intro transaction_database.equality) simp_all
  then show ?thesis using un co s1 by simp
qed

lemma self_db_facts:
  "find_hash self_db hash0 = Some (0, slab_self)" "get_link self_db 0 = Some slab_self"
  "hash_table self_db hash0 = Some 0"
  by (simp_all add: self_db_def find_hash_def find_link_def get_link_def)

lemma slab_self_runs:
  "result_inpoints slab_self = Some [point00]"
  "spend_reader slab_self = Some (5, confirmed, 1)"
  "spend_writer slab_self 0 7 = Some slab_self_spent"
  "update_writer slab_self_spent 7 1 confirmed 9 = Some slab_self_confirmed"
  "result_inpoints slab_self_confirmed = Some [point00]"
  "spend_reader slab_self_confirmed = Some (7, confirmed, 1)"
  "spend_writer slab_self_confirmed 0 0xFFFFFFFF = Some slab_self_unspent"
  "update_writer slab_self_unspent 0 0xFFFF pooled 0 = Some slab_self_pooled"
  "result_inpoints slab_self_pooled = Some [point00]"
  "spend_reader slab_self_pooled = Some (0, pooled, 1)"
  "result_state slab_self_confirmed = Some confirmed"
  "result_state slab_self_pooled = Some pooled"
  by code_simp+

lemma self_db1_facts:
  "find_hash self_db1 hash0 = Some (0, slab_self_confirmed)"
  "get_link self_db1 0 = Some slab_self_confirmed"
  by (simp_all add: self_db1_def find_hash_element_write get_link_Some self_db_facts)

lemma self_db2_facts:
  "find_hash self_db2 hash0 = Some (0, slab_self_pooled)"
  "get_link self_db2 0 = Some slab_self_pooled"
  by (simp_all add: self_db2_def self_db1_def find_hash_element_write get_link_Some
      self_db_facts)

lemma point00_simps: "hash point00 = hash0" "index point00 = 0"
  by (simp_all add: point00_def)

lemma confirm_self_db: "confirm self_db 0 7 9 1 = Some (True, self_db1)"
proof -
  have "spend self_db point00 7 =
      Some (True, element_write (cache_remove self_db point00) 0 slab_self_spent)"
    using not_null_points(1)
    by (simp add: spend_def Let_def point00_simps self_db_facts slab_self_runs not_spent_def
        word_le_nat_alt word_less_nat_alt)
  then show ?thesis
    by (simp add: confirm_def self_db_facts slab_self_runs update_def self_db1_def
        max_uint32_def max_uint16_def unconfirmed_def word_le_nat_alt)
qed

lemma unconfirm_self_db1: "unconfirm self_db1 0 = Some (True, self_db2)"
proof -
  have "spend self_db1 point00 (ucast not_spent) =
      Some (True, element_write self_db1 0 slab_self_unspent)"
    using not_null_points(1)
    by (simp add: spend_def Let_def point00_simps self_db1_facts slab_self_runs not_spent_def
        word_le_nat_alt word_less_nat_alt)
  then show ?thesis
    by (simp add: unconfirm_def self_db1_facts slab_self_runs update_def self_db2_def
        max_uint32_def max_uint16_def unconfirmed_def rule_fork_unverified_def no_time_def
        word_le_nat_alt)
qed

lemma confirm_self_db2:
  "confirm self_db2 0 7 9 1 = Some (False, cache_remove self_db2 point00)"
proof -
  have "spend self_db2 point00 7 = Some (False, cache_remove self_db2 point00)"
    using not_null_points(1)
    by (simp add: spend_def Let_def point00_simps self_db2_facts slab_self_runs not_spent_def)
  then show ?thesis
    by (simp add: confirm_def self_db2_facts slab_self_runs
        max_uint32_def max_uint16_def unconfirmed_def word_le_nat_alt)
qed

lemma get_link_cache_remove [simp]: "get_link (cache_remove s pt) l = get_link s l"
  by (simp add: get_link_def find_link_def)

section \<open>More runs on the small database\<close>

lemma result_output_slab0: 
  "result_output slab0 0 = Some (Some \<lparr>index_spend = 0, spender_height = 0xFFFFFFFF,
      output_value = 1, script = [81]\<rparr>)"
  by code_simp

lemma get_link_db1: "get_link db1 100 = Some slab1_confirmed"
  by (simp add: db1_def get_link_def find_link_def)

lemma slab0_spent_facts:
  "slot_position slab0 1 = Some 28" "length slab0_spent = length slab0"
  "take metadata_size slab0_spent = take metadata_size slab0"
  "slab0_spent ! 27 = slab0 ! 27"
  "read_4_bytes_little_endian slab0_spent 28 = Some (7, 32)"
  "result_output slab0 1 = Some (Some \<lparr>index_spend = 0, spender_height = 0xFFFFFFFF,
      output_value = 2, script = []\<rparr>)"
  "result_output slab0_spent 1 = Some (Some \<lparr>index_spend = 0, spender_height = 7,
      output_value = 2, script = []\<rparr>)"
  by code_simp+

lemma db2_facts:
  "get_link db2 100 = Some slab1" "find_hash db2 hash0 = Some (0, slab0)"
  using hash0_neq_hash1
  by (simp_all add: db2_def get_link_Some find_hash_element_write db1_facts db1_def db0_def)

lemma slab0_unspent: "output_spender_height slab0 1 = Some not_spent"
  by code_simp

section \<open>Claims about memory_map\<close>

text \<open>
  C5, as the code has it. The claim says that reserving space for a new record does not
  advance \<open>logical_size\<close> and that only linking the record does. In
  \<^verbatim>\<open>memory_map::reserve\<close> the assignment \<^verbatim>\<open>logical_size_ = size\<close> is unconditional:
  every call of \<open>reserve\<close> or \<open>resize\<close> that returns has set \<open>logical_size\<close> to the
  requested size, whether or not the file had to grow.
\<close>

theorem reserve_sets_logical_size:
  "(reserve os m sz = Inr m' \<longrightarrow> logical_size m' = sz) \<and>
   (resize os m sz = Inr m'' \<longrightarrow> logical_size m'' = sz)"
  by (auto simp: reserve_def resize_def dest: reserve_expansion_logical_size)

theorem reserve_sets_logical_size_witness:
  "reserve linux_ok \<lparr>file_size = 100, logical_size = 10, data_mapped = True\<rparr> 200
     = Inr \<lparr>file_size = 300, logical_size = 200, data_mapped = True\<rparr> \<and>
   logical_size \<lparr>file_size = 300, logical_size = 200, data_mapped = True\<rparr> = (200 :: size_t) \<and>
   resize linux_ok \<lparr>file_size = 100, logical_size = 10, data_mapped = True\<rparr> 200
     = Inr \<lparr>file_size = 200, logical_size = 200, data_mapped = True\<rparr> \<and>
   logical_size \<lparr>file_size = 200, logical_size = 200, data_mapped = True\<rparr> = (200 :: size_t)"
  using reserve_sets_logical_size [of linux_ok
      "\<lparr>file_size = 100, logical_size = 10, data_mapped = True\<rparr>" 200
      "\<lparr>file_size = 300, logical_size = 200, data_mapped = True\<rparr>"
      "\<lparr>file_size = 200, logical_size = 200, data_mapped = True\<rparr>"]
  by (simp add: reserve_def resize_def reserve_expansion_def truncate_file_def remap_def
      validate_def linux_ok_def EXPANSION_NUMERATOR_def EXPANSION_DENOMINATOR_def)

text \<open>
  C5 as stated fails: a file of capacity 100 with \<open>logical_size = 10\<close>; reserving 20 bytes
  does not grow the file, nothing is linked, and \<open>logical_size\<close> is 20 afterwards.
\<close>

theorem reserve_advances_logical_size_counterexample:
  "reserve linux_ok \<lparr>file_size = 100, logical_size = 10, data_mapped = True\<rparr> 20
     = Inr \<lparr>file_size = 100, logical_size = 20, data_mapped = True\<rparr> \<and>
   logical_size \<lparr>file_size = 100, logical_size = 20, data_mapped = True\<rparr>
     \<noteq> logical_size \<lparr>file_size = 100, logical_size = 10, data_mapped = True\<rparr>"
  by (simp add: reserve_def reserve_expansion_def)

text \<open>
  C8, as the code has it. When the requested size is at most the capacity, the capacity
  is unchanged. When it is larger and the call returns, the new capacity is
  \<open>size * 150 div 100\<close> for \<open>reserve\<close> and \<open>size * 100 div 100\<close> for \<open>resize\<close>, computed on
  64 bit words: the product is taken modulo \<open>2 ^ 64\<close>. It is the exact quotient of the
  exact product whenever that product is below \<open>2 ^ 64\<close>.
\<close>

theorem reserve_resize_capacity:
  "(reserve os m sz = Inr m' \<longrightarrow>
      file_size m' = (if sz > file_size m then sz * 150 div 100 else file_size m) \<and>
      (sz > file_size m \<longrightarrow> unat sz * 150 < 2 ^ 64 \<longrightarrow>
         unat (file_size m') = unat sz * 150 div 100)) \<and>
   (resize os m sz = Inr m'' \<longrightarrow>
      file_size m'' = (if sz > file_size m then sz * 100 div 100 else file_size m) \<and>
      (sz > file_size m \<longrightarrow> unat sz * 100 < 2 ^ 64 \<longrightarrow>
         unat (file_size m'') = unat sz * 100 div 100))"
proof -
  have a: "unat sz * 150 < 2 ^ 64 \<Longrightarrow> unat (sz * 150 div 100) = unat sz * 150 div 100"
    using unat_mult_div_exact [of sz 150] by simp
  have b: "unat sz * 100 < 2 ^ 64 \<Longrightarrow> unat (sz * 100 div 100) = unat sz * 100 div 100"
    using unat_mult_div_exact [of sz 100] by simp
  have r: "reserve os m sz = Inr m' \<Longrightarrow>
      file_size m' = (if sz > file_size m then sz * 150 div 100 else file_size m)"
    using reserve_expansion_file_size [of os m sz 150 m']
    by (simp add: reserve_def EXPANSION_NUMERATOR_def)
  have s: "resize os m sz = Inr m'' \<Longrightarrow>
      file_size m'' = (if sz > file_size m then sz * 100 div 100 else file_size m)"
    using reserve_expansion_file_size [of os m sz 100 m'']
    by (simp add: resize_def EXPANSION_DENOMINATOR_def)
  show ?thesis
    using a b r s by (simp del: mult_numeral_left_semiring_numeral)
qed

theorem reserve_resize_capacity_witness:
  "reserve linux_ok \<lparr>file_size = 1000, logical_size = 1000, data_mapped = True\<rparr> 2000
     = Inr \<lparr>file_size = 3000, logical_size = 2000, data_mapped = True\<rparr> \<and>
   (2000 :: size_t) > 1000 \<and> unat (2000 :: size_t) * 150 < 2 ^ 64 \<and>
   unat (3000 :: size_t) = unat (2000 :: size_t) * 150 div 100 \<and>
   resize linux_ok \<lparr>file_size = 1000, logical_size = 1000, data_mapped = True\<rparr> 2000
     = Inr \<lparr>file_size = 2000, logical_size = 2000, data_mapped = True\<rparr> \<and>
   unat (2000 :: size_t) * 100 < 2 ^ 64 \<and>
   unat (2000 :: size_t) = unat (2000 :: size_t) * 100 div 100"
  using reserve_resize_capacity [of linux_ok
      "\<lparr>file_size = 1000, logical_size = 1000, data_mapped = True\<rparr>" 2000
      "\<lparr>file_size = 3000, logical_size = 2000, data_mapped = True\<rparr>"
      "\<lparr>file_size = 2000, logical_size = 2000, data_mapped = True\<rparr>"]
  by (simp add: reserve_def resize_def reserve_expansion_def truncate_file_def remap_def
      validate_def linux_ok_def EXPANSION_NUMERATOR_def EXPANSION_DENOMINATOR_def)

text \<open>
  C8 as stated fails where the product overflows: reserving \<open>2 ^ 60\<close> bytes on a file of
  capacity 4096 sets the capacity to 69175290276410818, not to
  \<open>2 ^ 60 * 150 div 100 = 1729382256910270464\<close>, and the capacity is then below the
  logical size.
\<close>

theorem reserve_capacity_overflow_counterexample:
  "reserve linux_ok \<lparr>file_size = 4096, logical_size = 4096, data_mapped = True\<rparr>
       1152921504606846976
     = Inr \<lparr>file_size = 69175290276410818, logical_size = 1152921504606846976,
            data_mapped = True\<rparr> \<and>
   unat (69175290276410818 :: size_t) \<noteq> unat (1152921504606846976 :: size_t) * 150 div 100"
  by (simp add: reserve_def reserve_expansion_def truncate_file_def remap_def
      validate_def linux_ok_def EXPANSION_NUMERATOR_def EXPANSION_DENOMINATOR_def)

section \<open>Claims about get_output\<close>

text \<open>
  C9, as the code has it. For a null point \<open>get_output\<close> answers false at every fork
  height, having set the members \<open>height\<close> and \<open>median_time_past\<close> of the metadata to 0
  and \<open>spent\<close> to false. The members \<open>cache\<close>, \<open>coinbase\<close> and \<open>confirmed\<close> are not
  assigned on this path: they keep what the caller passed (the code's comment: the
  metadata should be defaulted by the caller).
\<close>

theorem get_output_null_point:
  "is_null pt \<Longrightarrow>
   get_output s pt metadata fork_height =
     Some (False, metadata\<lparr>prevout_height := 0, prevout_median_time_past := 0,
                           prevout_spent := False\<rparr>)"
  by (simp add: get_output_def)

theorem get_output_null_point_witness:
  "is_null null_point \<and>
   get_output db0 null_point prevout0 10 = Some (False, prevout0)"
  using get_output_null_point [of null_point db0 prevout0 10] is_null_null_point
  by (simp add: prevout0_def)

text \<open>
  C9 as stated fails: metadata that arrives with \<open>coinbase\<close> and \<open>confirmed\<close> set and an
  output in \<open>cache\<close> leaves with these three members as they were, not at their defaults.
\<close>

theorem get_output_null_point_counterexample:
  "get_output db0 null_point
     \<lparr>prevout_cache = Some \<lparr>index_spend = 0, spender_height = 9, output_value = 50,
                             script = [81]\<rparr>,
      prevout_coinbase = True, prevout_confirmed = True, prevout_height = 7,
      prevout_median_time_past = 9, prevout_spent = True\<rparr> 10
   = Some (False,
     \<lparr>prevout_cache = Some \<lparr>index_spend = 0, spender_height = 9, output_value = 50,
                             script = [81]\<rparr>,
      prevout_coinbase = True, prevout_confirmed = True, prevout_height = 0,
      prevout_median_time_past = 0, prevout_spent = False\<rparr>) \<and>
   get_output db0 null_point
     \<lparr>prevout_cache = Some \<lparr>index_spend = 0, spender_height = 9, output_value = 50,
                             script = [81]\<rparr>,
      prevout_coinbase = True, prevout_confirmed = True, prevout_height = 7,
      prevout_median_time_past = 9, prevout_spent = True\<rparr> 10
   \<noteq> Some (False, prevout0)"
  using is_null_null_point by (simp add: get_output_def prevout0_def)

text \<open>
  C7. A point that is not null, that the cache does not resolve and whose transaction is
  found with stored height 0: \<open>get_output\<close> answers false, for every fork height and
  whatever the state and the position of the record are.
\<close>

theorem get_output_genesis:
  assumes "\<not> is_null pt" "cache_populate s pt fork_height = None"
    "get_hash s (hash pt) = Some d" "result_height d = Some 0"
  shows "get_output s pt metadata fork_height =
     Some (False, metadata\<lparr>prevout_height := 0, prevout_median_time_past := 0,
                           prevout_spent := False\<rparr>)"
  using assms by (simp add: get_output_def)

theorem get_output_genesis_witness:
  "\<not> is_null point10 \<and> cache_populate db0 point10 10 = None \<and>
   get_hash db0 (hash point10) = Some slab1 \<and> result_height slab1 = Some 0 \<and>
   get_output db0 point10 prevout0 10 = Some (False, prevout0)"
proof -
  have h: "hash point10 = hash1" by (simp add: point10_def)
  show ?thesis
    using get_output_genesis [of point10 db0 10 slab1 prevout0]
      not_null_points(4) cache_populate_db0 [of point10 10] get_hash_db0(2) slab1_metadata(1)
    by (simp add: h prevout0_def)
qed

text \<open>
  C3. A point that is not null, that the cache does not resolve and whose transaction is
  found with a stored height other than 0. With
  \<open>confirmed = (state = indexed \<and> fork_height \<noteq> max) \<or> (state = confirmed \<and> height \<le> fork_height)\<close>:
  when the fork height is not the maximum and \<open>confirmed\<close> is false the answer is false;
  and whenever the answer is true, the member \<open>confirmed\<close> of the metadata is that value.
\<close>

theorem get_output_confirmation:
  assumes "\<not> is_null pt" "cache_populate s pt fork_height = None"
    "get_hash s (hash pt) = Some d" "result_height d = Some height" "height \<noteq> 0"
    "result_state d = Some state"
  shows "(fork_height \<noteq> max_size_t \<and>
          \<not> ((state = indexed \<and> fork_height \<noteq> max_size_t) \<or>
             (state = confirmed \<and> ucast height \<le> fork_height)) \<longrightarrow>
          get_output s pt metadata fork_height =
            Some (False, metadata\<lparr>prevout_height := 0, prevout_median_time_past := 0,
                                  prevout_spent := False\<rparr>)) \<and>
         (\<forall>pv. get_output s pt metadata fork_height = Some (True, pv) \<longrightarrow>
            prevout_confirmed pv =
              ((state = indexed \<and> fork_height \<noteq> max_size_t) \<or>
               (state = confirmed \<and> ucast height \<le> fork_height)))"
  using assms by (auto simp add: get_output_def Let_def split: option.splits)

theorem get_output_confirmation_witness:
  "\<not> is_null point00 \<and> cache_populate db0 point00 3 = None \<and>
   get_hash db0 (hash point00) = Some slab0 \<and> result_height slab0 = Some 5 \<and>
   (5 :: uint32_t) \<noteq> 0 \<and> result_state slab0 = Some confirmed \<and>
   (3 :: size_t) \<noteq> max_size_t \<and> \<not> ucast (5 :: uint32_t) \<le> (3 :: size_t) \<and>
   get_output db0 point00 prevout0 3 = Some (False, prevout0) \<and>
   get_output db0 point00 prevout0 5 =
     Some (True, \<lparr>prevout_cache = Some \<lparr>index_spend = 0, spender_height = 0xFFFFFFFF,
                      output_value = 1, script = [81]\<rparr>,
                  prevout_coinbase = True, prevout_confirmed = True, prevout_height = 5,
                  prevout_median_time_past = 16, prevout_spent = False\<rparr>)"
proof -
  have h: "hash point00 = hash0" "index point00 = 0" by (simp_all add: point00_def)
  have a: "get_output db0 point00 prevout0 3 = Some (False, prevout0)"
    using get_output_confirmation [of point00 db0 3 slab0 5 confirmed prevout0]
      not_null_points(1) cache_populate_db0 [of point00 3] get_hash_db0(1) slab0_metadata(1,2)
    by (simp add: h prevout0_def max_size_t_def word_le_nat_alt)
  have b: "get_output db0 point00 prevout0 5 =
     Some (True, \<lparr>prevout_cache = Some \<lparr>index_spend = 0, spender_height = 0xFFFFFFFF,
                      output_value = 1, script = [81]\<rparr>,
                  prevout_coinbase = True, prevout_confirmed = True, prevout_height = 5,
                  prevout_median_time_past = 16, prevout_spent = False\<rparr>)"
    using not_null_points(1)
    by (simp add: get_output_def h cache_populate_db0 get_hash_db0 slab0_metadata
        result_output_slab0 prevout0_def max_size_t_def output_spent_def word_le_nat_alt)
  show ?thesis
    using a b not_null_points(1) cache_populate_db0 [of point00 3] get_hash_db0(1)
      slab0_metadata(1,2)
    by (simp add: h max_size_t_def word_le_nat_alt)
qed

section \<open>Claims about spend and confirm\<close>

text \<open>
  C4. A point that is not null and whose transaction is found. When the state read from
  the record is not \<open>confirmed\<close>, or the height read exceeds the spender height, or the
  index of the point is at least the number of outputs read, \<open>spend\<close> answers false,
  and every slab of the database, the located record included, is as it was.
\<close>

theorem spend_rejects:
  assumes "\<not> is_null pt" "find_hash s (hash pt) = Some (l, d)"
    "spend_reader d = Some (height, state, outputs)"
    "state \<noteq> confirmed \<or> ucast height > spender \<or> ucast (index pt) \<ge> outputs"
  shows "\<exists>s'. spend s pt spender = Some (False, s') \<and> slabs s' = slabs s \<and>
           hash_table s' = hash_table s \<and> get_link s' l = Some d"
  using assms
  by (auto simp add: spend_def Let_def get_link_def find_link_def dest: find_hash_SomeD)

theorem spend_rejects_witness:
  "\<not> is_null point02 \<and> find_hash db0 (hash point02) = Some (0, slab0) \<and>
   spend_reader slab0 = Some (5, confirmed, 2) \<and> ucast (index point02) \<ge> (2 :: size_t) \<and>
   (\<exists>s'. spend db0 point02 7 = Some (False, s') \<and> slabs s' = slabs db0 \<and>
      hash_table s' = hash_table db0 \<and> get_link s' 0 = Some slab0)"
proof -
  have h: "hash point02 = hash0" "index point02 = 2" by (simp_all add: point02_def)
  show ?thesis
    using spend_rejects [of point02 db0 0 slab0 5 confirmed 2 7]
      not_null_points(3) find_hash_db0(1) spend_reader_slab0
    by (simp add: h)
qed

text \<open>
  C1. With \<open>height \<le> UINT32_MAX\<close>, \<open>position \<le> UINT16_MAX\<close> and the position not the
  unconfirmed sentinel: when \<open>confirm\<close> answers true, \<open>get\<close> of the same offset finds the
  record, and its state is \<open>confirmed\<close>, its height, median time past and position are
  the arguments of \<open>confirm\<close>.
\<close>

theorem confirm_then_get:
  assumes "height \<le> ucast max_uint32" "position \<le> ucast max_uint16"
    "position \<noteq> ucast unconfirmed"
    "confirm s l height mtp position = Some (True, s')"
  shows "\<exists>d. get_link s' l = Some d \<and>
           result_state d = Some confirmed \<and>
           map_option ucast (result_height d) = Some height \<and>
           result_median_time_past d = Some mtp \<and>
           map_option ucast (result_position d) = Some position"
proof -
  obtain s'' where "update s'' l height mtp position confirmed = Some (True, s')"
    using assms(4) confirm_TrueD by blast
  then obtain d d' where
    w: "update_writer d (ucast height) (ucast position) confirmed mtp = Some d'"
    and s': "s' = element_write s'' l d'"
    using update_TrueD by blast
  have "get_link s' l = Some d'"
    by (simp add: s' get_link_def find_link_def)
  moreover have "result_state d' = Some confirmed"
    using update_writer_read_back(3) [OF w] by (simp add: to_transaction_state_def)
  moreover have "map_option ucast (result_height d') = Some height"
    using update_writer_read_back(1) [OF w] assms(1) by (simp add: ucast_ucast_32_64)
  moreover have "result_median_time_past d' = Some mtp"
    using update_writer_read_back(4) [OF w] .
  moreover have "map_option ucast (result_position d') = Some position"
    using update_writer_read_back(2) [OF w] assms(2) by (simp add: ucast_ucast_16_64)
  ultimately show ?thesis by blast
qed

theorem confirm_then_get_witness:
  "(7 :: size_t) \<le> ucast max_uint32 \<and> (3 :: size_t) \<le> ucast max_uint16 \<and>
   (3 :: size_t) \<noteq> ucast unconfirmed \<and>
   confirm db0 100 7 3000000000 3 = Some (True, db1) \<and>
   get_link db1 100 = Some slab1_confirmed \<and>
   result_state slab1_confirmed = Some confirmed \<and>
   map_option ucast (result_height slab1_confirmed) = Some (7 :: size_t) \<and>
   result_median_time_past slab1_confirmed = Some 3000000000 \<and>
   map_option ucast (result_position slab1_confirmed) = Some (3 :: size_t)"
  using confirm_then_get [of 7 3 db0 100 3000000000 db1] confirm_db0 get_link_db1
  by (simp add: max_uint32_def max_uint16_def unconfirmed_def word_le_nat_alt)

text \<open>
  C10. When \<open>spend\<close> of a point that is not null answers true, the record found for the
  hash of the point is the only slab that changes, and the hash table does not change.
  In that record the four bytes at the position of the spender height of output number
  \<open>index\<close> now hold the spender height (narrowed to 32 bits); the record has the length it
  had and every other byte is as before, the eleven bytes of metadata and the index
  spend byte in front of the four bytes among them. Reading that output back gives the
  output as it was with the new spender height.
\<close>

theorem spend_frame:
  assumes "\<not> is_null pt" "spend s pt spender = Some (True, s')"
  shows "\<exists>l d d' q.
           find_hash s (hash pt) = Some (l, d) \<and> slot_position d (index pt) = Some q \<and>
           hash_table s' = hash_table s \<and> slabs s' = (slabs s)(l \<mapsto> d') \<and>
           length d' = length d \<and> metadata_size + 2 \<le> q \<and> q + 4 \<le> length d \<and>
           (\<forall>i < length d. \<not> (q \<le> i \<and> i < q + 4) \<longrightarrow> d' ! i = d ! i) \<and>
           take metadata_size d' = take metadata_size d \<and>
           d' ! (q - index_spend_size) = d ! (q - index_spend_size) \<and>
           slot_position d' (index pt) = Some q \<and>
           read_4_bytes_little_endian d' q = Some (ucast spender, q + 4) \<and>
           (\<forall>out. result_output d (index pt) = Some (Some out) \<longrightarrow>
              result_output d' (index pt) =
                Some (Some (out\<lparr>spender_height := ucast spender\<rparr>)))"
proof -
  obtain l d d' where f: "find_hash s (hash pt) = Some (l, d)"
    and w: "spend_writer d (index pt) spender = Some d'"
    and s': "s' = element_write
                (if spender \<noteq> ucast not_spent then cache_remove s pt else s) l d'"
    using spend_TrueD [OF assms] by blast
  obtain q where q: "slot_position d (index pt) = Some q" and len: "q + 4 \<le> length d"
    and wb: "write_bytes d q (to_little_endian 4 (ucast spender :: uint32_t)) = Some (d', q + 4)"
    and e: "eq_outside {q ..< q + 4} d d'"
    using spend_writer_SomeD [OF w] by blast
  have low: "metadata_size + 2 \<le> q" using q by (rule slot_position_lower)
  have bytes: "\<forall>i < length d. \<not> (q \<le> i \<and> i < q + 4) \<longrightarrow> d' ! i = d ! i"
    using e by (simp add: eq_outside_def)
  have l': "length d' = length d" using e by (rule eq_outside_length)
  have "take metadata_size d' = take metadata_size d"
  proof (rule nth_equalityI)
    show "length (take metadata_size d') = length (take metadata_size d)"
      using l' by simp
  next
    fix i assume "i < length (take metadata_size d')"
    then have "i < metadata_size" "i < length d" using l' by simp_all
    then show "take metadata_size d' ! i = take metadata_size d ! i"
      using bytes low by simp
  qed
  moreover have "d' ! (q - index_spend_size) = d ! (q - index_spend_size)"
    using bytes low len by (simp add: size_defs)
  moreover have "slot_position d' (index pt) = Some q"
    using slot_write_position [OF q e] q by simp
  moreover have "read_4_bytes_little_endian d' q = Some (ucast spender, q + 4)"
    using wb by (rule read_4_write_4)
  moreover have "\<forall>out. result_output d (index pt) = Some (Some out) \<longrightarrow>
      result_output d' (index pt) = Some (Some (out\<lparr>spender_height := ucast spender\<rparr>))"
    using result_output_after_spend [OF w] by blast
  moreover have "hash_table s' = hash_table s" "slabs s' = (slabs s)(l \<mapsto> d')"
    by (simp_all add: s')
  ultimately show ?thesis
    using f q l' low len bytes by blast
qed

theorem spend_frame_witness:
  "\<not> is_null point01 \<and>
   spend db0 point01 7 = Some (True, element_write (cache_remove db0 point01) 0 slab0_spent) \<and>
   find_hash db0 (hash point01) = Some (0, slab0) \<and>
   slot_position slab0 (index point01) = Some 28 \<and>
   hash_table (element_write (cache_remove db0 point01) 0 slab0_spent) = hash_table db0 \<and>
   slabs (element_write (cache_remove db0 point01) 0 slab0_spent)
     = (slabs db0)(0 \<mapsto> slab0_spent) \<and>
   length slab0_spent = length slab0 \<and>
   take metadata_size slab0_spent = take metadata_size slab0 \<and>
   slab0_spent ! 27 = slab0 ! 27 \<and>
   read_4_bytes_little_endian slab0_spent 28 = Some (7, 32) \<and>
   result_output slab0 1 = Some (Some \<lparr>index_spend = 0, spender_height = 0xFFFFFFFF,
      output_value = 2, script = []\<rparr>) \<and>
   result_output slab0_spent 1 = Some (Some \<lparr>index_spend = 0, spender_height = 7,
      output_value = 2, script = []\<rparr>)"
proof -
  have h: "hash point01 = hash0" "index point01 = 1" by (simp_all add: point01_def)
  show ?thesis
    using spend_frame [OF not_null_points(2) spend_db0_point01]
      not_null_points(2) spend_db0_point01 find_hash_db0(1) slab0_spent_facts
    by (simp add: h)
qed

text \<open>
  C2. When \<open>unconfirm\<close> answers true, \<open>get\<close> of the same offset finds the record with
  state \<open>pooled\<close>, the unconfirmed sentinel as position, the unverified forks (0) as
  height and median time past 0. The inputs of the transaction are the same before and
  after, and for each of them whose point is not null (a null point has no previous
  output) the previous output is found and its spender height is the not-spent sentinel.
\<close>

theorem unconfirm_then_get:
  assumes "unconfirm s l = Some (True, s')"
  shows "\<exists>d d' pts.
           get_link s l = Some d \<and> get_link s' l = Some d' \<and>
           result_state d' = Some pooled \<and> result_position d' = Some unconfirmed \<and>
           result_height d' = Some rule_fork_unverified \<and>
           result_median_time_past d' = Some 0 \<and>
           result_inpoints d = Some pts \<and> result_inpoints d' = Some pts \<and>
           (\<forall>pt \<in> set pts. \<not> is_null pt \<longrightarrow>
              (\<exists>l' e. find_hash s' (hash pt) = Some (l', e) \<and>
                      output_spender_height e (index pt) = Some not_spent))"
proof -
  obtain d pts s1 where g: "get_link s l = Some d" and i: "result_inpoints d = Some pts"
    and sp: "spend_inputs s pts (ucast not_spent) = Some (True, s1)"
    and u: "update s1 l (ucast rule_fork_unverified) no_time (ucast unconfirmed) pooled
              = Some (True, s')"
    using unconfirm_TrueD [OF assms] by blast
  obtain d1 d' where d1: "slabs s1 l = Some d1"
    and w: "update_writer d1 (ucast (ucast rule_fork_unverified :: size_t))
              (ucast (ucast unconfirmed :: size_t)) pooled no_time = Some d'"
    and s': "s' = element_write s1 l d'"
    using update_TrueD [OF u] by blast
  have w': "update_writer d1 rule_fork_unverified unconfirmed pooled no_time = Some d'"
    using w by (simp only: ucast_down_up_32 ucast_down_up_16)
  have he: "eq_outside {..< metadata_size} d1 d'"
    using w' by (rule update_writer_header_eq)
  have eqv: "slot_equiv s s1" using sp by (rule spend_inputs_slot_equiv)
  have "rel_option slot_eq (slabs s l) (slabs s1 l)"
    using eqv by (simp add: slot_equiv_def)
  then have "slot_eq d d1" using g d1 by (simp add: get_link_Some)
  then have "result_inpoints d1 = Some pts"
    using slot_eq_result_inpoints i by simp
  then have i': "result_inpoints d' = Some pts"
    using header_eq_result_inpoints [OF he] by simp
  have g': "get_link s' l = Some d'" by (simp add: s' get_link_Some)
  have spent1: "all_spent s1 pts not_spent"
    using spend_inputs_all_spent [OF sp] by (simp only: ucast_down_up_32)
  have spent: "\<exists>l' e. find_hash s' (hash pt) = Some (l', e) \<and>
      output_spender_height e (index pt) = Some not_spent"
    if pt: "pt \<in> set pts" and nn: "\<not> is_null pt" for pt
  proof -
    obtain l1 e1 where f: "find_hash s1 (hash pt) = Some (l1, e1)"
      and c: "output_spender_height e1 (index pt) = Some not_spent"
      using spent1 pt nn by (auto simp add: all_spent_def)
    show ?thesis
    proof (cases "hash_table s1 (hash pt) = Some l")
      case True
      then have "l1 = l" "e1 = d1" using f d1 by (simp_all add: find_hash_SomeD)
      then have "output_spender_height d' (index pt) = Some not_spent"
        using header_eq_content [OF he] c by simp
      then show ?thesis using True by (simp add: s' find_hash_element_write)
    next
      case False
      then show ?thesis using f c by (simp add: s' find_hash_element_write)
    qed
  qed
  have "result_state d' = Some pooled"
    using update_writer_read_back(3) [OF w'] by (simp add: to_transaction_state_def)
  moreover have "result_position d' = Some unconfirmed"
    using update_writer_read_back(2) [OF w'] .
  moreover have "result_height d' = Some rule_fork_unverified"
    using update_writer_read_back(1) [OF w'] .
  moreover have "result_median_time_past d' = Some 0"
    using update_writer_read_back(4) [OF w'] by (simp add: no_time_def)
  ultimately show ?thesis
    using g g' i i' spent by blast
qed

theorem unconfirm_then_get_witness:
  "unconfirm db1 100 = Some (True, db2) \<and>
   get_link db1 100 = Some slab1_confirmed \<and> get_link db2 100 = Some slab1 \<and>
   result_state slab1 = Some pooled \<and> result_position slab1 = Some unconfirmed \<and>
   result_height slab1 = Some rule_fork_unverified \<and>
   result_median_time_past slab1 = Some 0 \<and>
   result_inpoints slab1_confirmed = Some [point01] \<and>
   result_inpoints slab1 = Some [point01] \<and> \<not> is_null point01 \<and>
   find_hash db2 (hash point01) = Some (0, slab0) \<and>
   output_spender_height slab0 (index point01) = Some not_spent"
proof -
  have h: "hash point01 = hash0" "index point01 = 1" by (simp_all add: point01_def)
  show ?thesis
    using unconfirm_then_get [OF unconfirm_db1] unconfirm_db1 db1_facts db2_facts
      slab_spent_facts(1) slab1_metadata result_inpoints_slab1 not_null_points(2) slab0_unspent
    by (simp add: h rule_fork_unverified_def)
qed

text \<open>
  C6, as the code has it. Let the first \<open>confirm\<close> of the record at an offset answer
  true, and let no input of its transaction name, through the hash table, the record at
  that offset itself. Then \<open>unconfirm\<close> of the offset answers true, the second
  \<open>confirm\<close> with the same arguments answers true, and the database is then the one the
  first \<open>confirm\<close> left: \<open>get\<close> by offset, \<open>get\<close> by hash and \<open>get_output\<close> answer alike.
\<close>

theorem confirm_unconfirm_confirm:
  assumes "confirm s l height mtp position = Some (True, s1)"
    and "get_link s l = Some d" and "result_inpoints d = Some pts"
    and "\<forall>pt \<in> set pts. \<not> is_null pt \<longrightarrow> hash_table s (hash pt) \<noteq> Some l"
  shows "\<exists>s2 s3. unconfirm s1 l = Some (True, s2) \<and>
           confirm s2 l height mtp position = Some (True, s3) \<and> s3 = s1 \<and>
           (\<forall>x. get_link s3 x = get_link s1 x) \<and>
           (\<forall>h. get_hash s3 h = get_hash s1 h) \<and>
           (\<forall>pt metadata fork_height.
              get_output s3 pt metadata fork_height = get_output s1 pt metadata fork_height)"
  using confirm_unconfirm_confirm_state [OF assms] by auto

theorem confirm_unconfirm_confirm_witness:
  "confirm db0 100 7 3000000000 3 = Some (True, db1) \<and>
   get_link db0 100 = Some slab1 \<and> result_inpoints slab1 = Some [point01] \<and>
   \<not> is_null point01 \<and> hash_table db0 (hash point01) \<noteq> Some 100 \<and>
   unconfirm db1 100 = Some (True, db2) \<and>
   confirm db2 100 7 3000000000 3 = Some (True, db1)"
proof -
  have n: "\<forall>pt \<in> set [point01]. \<not> is_null pt \<longrightarrow> hash_table db0 (hash pt) \<noteq> Some 100"
    by (simp add: point01_def db0_def)
  show ?thesis
    using confirm_unconfirm_confirm [OF confirm_db0 get_link_db0(2) result_inpoints_slab1 n]
      confirm_db0 get_link_db0(2) result_inpoints_slab1 n not_null_points(2) unconfirm_db1
    by auto
qed

text \<open>
  C6 as stated fails for a record whose input spends an output of the record itself.
  The first \<open>confirm\<close> finds the record confirmed and answers true; \<open>unconfirm\<close> makes it
  pooled; the second \<open>confirm\<close> then finds the previous transaction of the input, the
  record itself, not confirmed, and answers false. \<open>get\<close> reports \<open>pooled\<close> after the
  three calls and \<open>confirmed\<close> after the first alone.
\<close>

theorem confirm_unconfirm_confirm_counterexample:
  "confirm self_db 0 7 9 1 = Some (True, self_db1) \<and>
   unconfirm self_db1 0 = Some (True, self_db2) \<and>
   confirm self_db2 0 7 9 1 = Some (False, cache_remove self_db2 point00) \<and>
   get_link self_db1 0 = Some slab_self_confirmed \<and>
   result_state slab_self_confirmed = Some confirmed \<and>
   get_link (cache_remove self_db2 point00) 0 = Some slab_self_pooled \<and>
   result_state slab_self_pooled = Some pooled"
  by (simp add: confirm_self_db unconfirm_self_db1 confirm_self_db2 self_db1_facts
      self_db2_facts slab_self_runs)

end
